theory Spec2Isabelle
  imports Complex_Main "HOL-Library.Multiset"
begin

section \<open>JavaScript strings\<close>

text \<open>
  A string is the list of its code units. The model covers the code units below 256
  (ASCII and Latin-1); \<open>length\<close> is the \<open>.length\<close> of the source.
\<close>

definition lower_char :: "char \<Rightarrow> char" where
  "lower_char c = (let n = (of_char c :: nat) in
     if (65 \<le> n \<and> n \<le> 90) \<or> (192 \<le> n \<and> n \<le> 222 \<and> n \<noteq> 215)
     then char_of (n + 32) else c)"

definition toLowerCase :: "string \<Rightarrow> string" where
  "toLowerCase s = map lower_char s"

fun startsWith :: "string \<Rightarrow> string \<Rightarrow> bool" where
  "startsWith s [] = True"
| "startsWith [] (p # ps) = False"
| "startsWith (c # cs) (p # ps) = (c = p \<and> startsWith cs ps)"

text \<open>\<open>s.includes(p)\<close>, also the \<open>CONTAINS\<close> of the graph store's query language.\<close>

fun str_includes :: "string \<Rightarrow> string \<Rightarrow> bool" where
  "str_includes [] p = (p = [])"
| "str_includes (c # cs) p = (startsWith (c # cs) p \<or> str_includes cs p)"

text \<open>The white space of \<open>\s\<close> and of \<open>trim\<close>: tab, line feed, vertical tab, form feed,
  carriage return, space and the no-break space.\<close>

definition is_space :: "char \<Rightarrow> bool" where
  "is_space c = ((of_char c :: nat) \<in> {9, 10, 11, 12, 13, 32, 160})"

definition trim :: "string \<Rightarrow> string" where
  "trim s = rev (dropWhile is_space (rev (dropWhile is_space s)))"

text \<open>
  \<open>s.split(/[sep]+/)\<close>: the pieces between maximal runs of separators. A separator at
  either end leaves an empty piece there, and the empty string gives one empty piece.
  The flag says that the preceding character was a separator.
\<close>

fun split_runs :: "(char \<Rightarrow> bool) \<Rightarrow> bool \<Rightarrow> string \<Rightarrow> string list" where
  "split_runs sep in_run [] = [[]]"
| "split_runs sep in_run (c # cs) =
     (if sep c then
        (if in_run then split_runs sep True cs else [] # split_runs sep True cs)
      else
        (case split_runs sep False cs of
           [] \<Rightarrow> [[c]]
         | p # ps \<Rightarrow> (c # p) # ps))"

definition split_ws :: "string \<Rightarrow> string list" where
  "split_ws s = split_runs is_space False s"

definition is_sentence_end :: "char \<Rightarrow> bool" where
  "is_sentence_end c = (c = CHR ''.'' \<or> c = CHR ''!'' \<or> c = CHR ''?'')"

definition split_sentences :: "string \<Rightarrow> string list" where
  "split_sentences s = split_runs is_sentence_end False s"

definition substring :: "nat \<Rightarrow> nat \<Rightarrow> string \<Rightarrow> string" where
  "substring i j s = take (j - i) (drop i s)"

lemma startsWith_iff: "startsWith s p \<longleftrightarrow> (\<exists>post. s = p @ post)"
  by (induction s p rule: startsWith.induct) auto

lemma str_includes_iff: "str_includes s p \<longleftrightarrow> (\<exists>pre post. s = pre @ p @ post)"
proof (induction s)
  case Nil
  then show ?case by simp
next
  case (Cons c cs)
  show ?case
  proof
    assume "str_includes (c # cs) p"
    then consider "startsWith (c # cs) p" | "str_includes cs p" by auto
    then show "\<exists>pre post. c # cs = pre @ p @ post"
    proof cases
      case 1
      then obtain post where "c # cs = p @ post" by (auto simp: startsWith_iff)
      then have "c # cs = [] @ p @ post" by simp
      then show ?thesis by blast
    next
      case 2
      then obtain pre post where "cs = pre @ p @ post" using Cons.IH by blast
      then have "c # cs = (c # pre) @ p @ post" by simp
      then show ?thesis by blast
    qed
  next
    assume "\<exists>pre post. c # cs = pre @ p @ post"
    then obtain pre post where eq: "c # cs = pre @ p @ post" by blast
    show "str_includes (c # cs) p"
    proof (cases pre)
      case Nil
      then have "startsWith (c # cs) p" using eq by (auto simp: startsWith_iff)
      then show ?thesis by simp
    next
      case (Cons d pre')
      then have "cs = pre' @ p @ post" using eq by simp
      then have "str_includes cs p" using Cons.IH by blast
      then show ?thesis by simp
    qed
  qed
qed

section \<open>Search mode selection (knowledge-graph.js, determineSearchMode)\<close>

definition globalIndicators :: "string list" where
  "globalIndicators =
     [''overall'', ''general'', ''compare'', ''analyze'', ''overview'', ''summary'',
      ''trend'', ''pattern'']"

definition localIndicators :: "string list" where
  "localIndicators =
     [''specific'', ''detail'', ''who'', ''what'', ''when'', ''where'', ''how'']"

text \<open>\<open>indicators.filter(indicator => lowerQuestion.includes(indicator)).length\<close>\<close>

definition globalScore :: "string \<Rightarrow> nat" where
  "globalScore question =
     length (filter (\<lambda>indicator. str_includes (toLowerCase question) indicator) globalIndicators)"

definition localScore :: "string \<Rightarrow> nat" where
  "localScore question =
     length (filter (\<lambda>indicator. str_includes (toLowerCase question) indicator) localIndicators)"

text \<open>The mode is the string the source passes around: \<open>'global'\<close> or \<open>'local'\<close>.\<close>

definition determineSearchMode :: "string \<Rightarrow> string" where
  "determineSearchMode question =
     (if globalScore question > localScore question then ''global'' else ''local'')"

text \<open>An indicator occurs in a question when the lower-cased question contains it as a
  contiguous run of characters, inside a longer word or not.\<close>

definition occurs_in :: "string \<Rightarrow> string \<Rightarrow> bool" where
  "occurs_in indicator question =
     (\<exists>pre post. toLowerCase question = pre @ indicator @ post)"

text \<open>
  The reading of the specification, for comparison: the question is cut into words by a
  tokenizer, and an indicator counts when it is one of the words. The tokenizer is a
  parameter; the words are taken from the lower-cased question, as the example
  "Who founded the company?" of the specification needs.
\<close>

definition wordOverlap :: "(string \<Rightarrow> string list) \<Rightarrow> string \<Rightarrow> string list \<Rightarrow> nat" where
  "wordOverlap tokenizer question indicators =
     length (filter (\<lambda>indicator. indicator \<in> set (tokenizer (toLowerCase question))) indicators)"

definition modeByWords :: "(string \<Rightarrow> string list) \<Rightarrow> string \<Rightarrow> string" where
  "modeByWords tokenizer question =
     (if wordOverlap tokenizer question globalIndicators
           > wordOverlap tokenizer question localIndicators
      then ''global'' else ''local'')"

text \<open>A tokenizer for evaluation: the words are the runs of letters, digits and
  underscores.\<close>

definition word_char :: "char \<Rightarrow> bool" where
  "word_char c = (let k = (of_char c :: nat) in
     (48 \<le> k \<and> k \<le> 57) \<or> (65 \<le> k \<and> k \<le> 90) \<or> k = 95 \<or> (97 \<le> k \<and> k \<le> 122))"

definition word_tokens :: "string \<Rightarrow> string list" where
  "word_tokens s = filter (\<lambda>w. w \<noteq> []) (split_runs (\<lambda>c. \<not> word_char c) False s)"

lemma globalScore_card:
  "globalScore q = card {i \<in> set globalIndicators. occurs_in i q}"
proof -
  have "distinct globalIndicators" by (simp add: globalIndicators_def)
  then have "distinct (filter (\<lambda>i. str_includes (toLowerCase q) i) globalIndicators)"
    by (rule distinct_filter)
  then have "globalScore q = card (set (filter (\<lambda>i. str_includes (toLowerCase q) i) globalIndicators))"
    unfolding globalScore_def by (rule distinct_card [symmetric])
  also have "set (filter (\<lambda>i. str_includes (toLowerCase q) i) globalIndicators)
      = {i \<in> set globalIndicators. occurs_in i q}"
    by (auto simp: occurs_in_def str_includes_iff)
  finally show ?thesis .
qed

lemma localScore_card:
  "localScore q = card {i \<in> set localIndicators. occurs_in i q}"
proof -
  have "distinct localIndicators" by (simp add: localIndicators_def)
  then have "distinct (filter (\<lambda>i. str_includes (toLowerCase q) i) localIndicators)"
    by (rule distinct_filter)
  then have "localScore q = card (set (filter (\<lambda>i. str_includes (toLowerCase q) i) localIndicators))"
    unfolding localScore_def by (rule distinct_card [symmetric])
  also have "set (filter (\<lambda>i. str_includes (toLowerCase q) i) localIndicators)
      = {i \<in> set localIndicators. occurs_in i q}"
    by (auto simp: occurs_in_def str_includes_iff)
  finally show ?thesis .
qed

lemma length_filter_mono:
  "(\<And>x. x \<in> set xs \<Longrightarrow> P x \<Longrightarrow> Q x) \<Longrightarrow> length (filter P xs) \<le> length (filter Q xs)"
  by (induction xs) auto

text \<open>When the words of the tokenizer are pieces of the question, an indicator that is a
  word also occurs in the question: the count of the source is at least the count by
  words.\<close>

lemma wordOverlap_le:
  assumes "list_all (str_includes (toLowerCase q)) (tokenizer (toLowerCase q))"
  shows "wordOverlap tokenizer q inds
     \<le> length (filter (\<lambda>indicator. str_includes (toLowerCase q) indicator) inds)"
  unfolding wordOverlap_def
  using assms by (intro length_filter_mono) (auto simp: list_all_iff)

lemma overview_scores:
  "globalScore ''Give me an overview of the major trends'' = 2"
  "localScore ''Give me an overview of the major trends'' = 0"
  by code_simp+

lemma who_scores:
  "globalScore ''Who founded the company?'' = 0"
  "localScore ''Who founded the company?'' = 1"
  by code_simp+

text \<open>
  C5, as amended. Automatic mode selection counts the indicators of the fixed global
  set and of the fixed local set that occur in the lower-cased question as runs of
  characters, also inside a longer word (the question is not cut into words), and
  answers \<open>global\<close> exactly when the global count is strictly greater; a tie gives
  \<open>local\<close>. Each count is at least the number of indicators that are words of the
  question, for a tokenizer whose words are pieces of the lower-cased question. The
  question "Give me an overview of the major trends" has counts 2 and 0
  and selects \<open>global\<close>; "Who founded the company?" selects \<open>local\<close>.
\<close>

theorem determineSearchMode_counts:
  "(determineSearchMode q = ''global'' \<longleftrightarrow>
      card {i \<in> set localIndicators. occurs_in i q}
        < card {i \<in> set globalIndicators. occurs_in i q})
   \<and> (determineSearchMode q = ''local'' \<longleftrightarrow>
      card {i \<in> set globalIndicators. occurs_in i q}
        \<le> card {i \<in> set localIndicators. occurs_in i q})
   \<and> (list_all (str_includes (toLowerCase q)) (tokenizer (toLowerCase q)) \<longrightarrow>
        wordOverlap tokenizer q globalIndicators \<le> globalScore q
        \<and> wordOverlap tokenizer q localIndicators \<le> localScore q)
   \<and> set globalIndicators = {''overall'', ''general'', ''compare'', ''analyze'',
        ''overview'', ''summary'', ''trend'', ''pattern''}
   \<and> set localIndicators = {''specific'', ''detail'', ''who'', ''what'', ''when'',
        ''where'', ''how''}
   \<and> globalScore ''Give me an overview of the major trends'' = 2
   \<and> localScore ''Give me an overview of the major trends'' = 0
   \<and> determineSearchMode ''Give me an overview of the major trends'' = ''global''
   \<and> determineSearchMode ''Who founded the company?'' = ''local''"
proof -
  have a: "determineSearchMode q = ''global'' \<longleftrightarrow>
      card {i \<in> set localIndicators. occurs_in i q}
        < card {i \<in> set globalIndicators. occurs_in i q}"
    by (simp add: determineSearchMode_def globalScore_card localScore_card)
  have b: "determineSearchMode q = ''local'' \<longleftrightarrow>
      card {i \<in> set globalIndicators. occurs_in i q}
        \<le> card {i \<in> set localIndicators. occurs_in i q}"
    by (simp add: determineSearchMode_def globalScore_card localScore_card not_less)
  have w: "list_all (str_includes (toLowerCase q)) (tokenizer (toLowerCase q)) \<longrightarrow>
        wordOverlap tokenizer q globalIndicators \<le> globalScore q
        \<and> wordOverlap tokenizer q localIndicators \<le> localScore q"
    using wordOverlap_le [of q tokenizer] by (simp add: globalScore_def localScore_def)
  have c: "set globalIndicators = {''overall'', ''general'', ''compare'', ''analyze'',
        ''overview'', ''summary'', ''trend'', ''pattern''}"
    by (simp add: globalIndicators_def)
  have d: "set localIndicators = {''specific'', ''detail'', ''who'', ''what'', ''when'',
        ''where'', ''how''}"
    by (simp add: localIndicators_def)
  have e: "determineSearchMode ''Give me an overview of the major trends'' = ''global''"
    by (simp add: determineSearchMode_def overview_scores)
  have f: "determineSearchMode ''Who founded the company?'' = ''local''"
    by (simp add: determineSearchMode_def who_scores)
  from a b w c d e f overview_scores show ?thesis by blast
qed

lemma show_summary:
  "list_all (str_includes (toLowerCase ''Show the summary''))
     (word_tokens (toLowerCase ''Show the summary''))"
  "word_tokens (toLowerCase ''Show the summary'') = [''show'', ''the'', ''summary'']"
  "wordOverlap word_tokens ''Show the summary'' globalIndicators = 1"
  "wordOverlap word_tokens ''Show the summary'' localIndicators = 0"
  "globalScore ''Show the summary'' = 1"
  "localScore ''Show the summary'' = 1"
  by code_simp+

theorem determineSearchMode_counts_witness:
  "wordOverlap word_tokens ''Show the summary'' globalIndicators
     \<le> globalScore ''Show the summary''
   \<and> wordOverlap word_tokens ''Show the summary'' localIndicators
     \<le> localScore ''Show the summary''
   \<and> wordOverlap word_tokens ''Show the summary'' localIndicators = 0
   \<and> localScore ''Show the summary'' = 1"
  using determineSearchMode_counts [of "''Show the summary''" word_tokens] show_summary(1,4,6)
  by simp

text \<open>The two readings part on "Show the summary": no word of it is a local indicator,
  but \<open>how\<close> occurs inside \<open>show\<close>, so the counts of the source are 1 and 1 and the mode is
  \<open>local\<close>, where the count by words selects \<open>global\<close>.\<close>

theorem word_overlap_counterexample:
  "word_tokens (toLowerCase ''Show the summary'') = [''show'', ''the'', ''summary'']
   \<and> wordOverlap word_tokens ''Show the summary'' globalIndicators = 1
   \<and> wordOverlap word_tokens ''Show the summary'' localIndicators = 0
   \<and> modeByWords word_tokens ''Show the summary'' = ''global''
   \<and> globalScore ''Show the summary'' = 1
   \<and> localScore ''Show the summary'' = 1
   \<and> determineSearchMode ''Show the summary'' = ''local''"
  by code_simp

section \<open>Concept extraction (knowledge-graph.js, extractConcepts)\<close>

text \<open>
  The values that a word-count object comes to hold: a count or, for a key that names a
  member every object inherits, a text.
\<close>

datatype jsval = Count nat | Str string

fun is_count :: "jsval \<Rightarrow> bool" where
  "is_count (Count k) = True"
| "is_count (Str s) = False"

fun count_of :: "jsval \<Rightarrow> nat" where
  "count_of (Count k) = k"
| "count_of (Str s) = 0"

text \<open>
  The tokenizer, the stop-word list and the stemmer come from the library \<open>natural\<close>;
  they are parameters of the model. So is \<open>engine_sort\<close>: the order in which the engine's
  \<open>Array.prototype.sort\<close> leaves a list whose comparison is not consistent, which the
  language leaves open.
\<close>

record nlp =
  tokenize :: "string \<Rightarrow> string list"
  stopwords :: "string list"
  stem :: "string \<Rightarrow> string"
  engine_sort :: "(string \<times> jsval) list \<Rightarrow> (string \<times> jsval) list"

definition is_digit :: "char \<Rightarrow> bool" where
  "is_digit c = (48 \<le> (of_char c :: nat) \<and> (of_char c :: nat) \<le> 57)"

text \<open>\<open>/^\d+$/.test(s)\<close>\<close>

definition all_digits :: "string \<Rightarrow> bool" where
  "all_digits s = (s \<noteq> [] \<and> list_all is_digit s)"

text \<open>
  The members that an object literal inherits from \<open>Object.prototype\<close>, each with the
  text that it becomes in a concatenation: the source text of a built-in function, and
  for \<open>__proto__\<close> the text of the prototype object.
\<close>

definition prototype_members :: "(string \<times> string) list" where
  "prototype_members =
     [(''constructor'', ''function Object() { [native code] }''),
      (''__defineGetter__'', ''function __defineGetter__() { [native code] }''),
      (''__defineSetter__'', ''function __defineSetter__() { [native code] }''),
      (''hasOwnProperty'', ''function hasOwnProperty() { [native code] }''),
      (''__lookupGetter__'', ''function __lookupGetter__() { [native code] }''),
      (''__lookupSetter__'', ''function __lookupSetter__() { [native code] }''),
      (''isPrototypeOf'', ''function isPrototypeOf() { [native code] }''),
      (''propertyIsEnumerable'', ''function propertyIsEnumerable() { [native code] }''),
      (''toString'', ''function toString() { [native code] }''),
      (''valueOf'', ''function valueOf() { [native code] }''),
      (''__proto__'', ''[object Object]''),
      (''toLocaleString'', ''function toLocaleString() { [native code] }'')]"

definition inherited :: "string \<Rightarrow> string option" where
  "inherited k = map_of prototype_members k"

text \<open>\<open>(v || 0) + 1\<close> for the value \<open>v\<close> of an own property: a count grows by one, a text
  gets the character \<open>1\<close> at its end.\<close>

fun plus_one :: "jsval \<Rightarrow> jsval" where
  "plus_one (Count k) = Count (k + 1)"
| "plus_one (Str s) = (if s = [] then Count 1 else Str (s @ ''1''))"

text \<open>
  An object used as a dictionary is the list of its own properties in creation order.
  \<open>bump\<close> is \<open>o[k] = (o[k] || 0) + 1\<close>. When \<open>o\<close> has no own property \<open>k\<close>, the read finds
  the inherited member if there is one: the member, a function or an object, is not
  \<open>0\<close>, and adding 1 to it gives its text followed by \<open>1\<close>. The assignment then creates
  the own property, except for \<open>__proto__\<close>, whose setter ignores a text.
\<close>

fun bump :: "string \<Rightarrow> (string \<times> jsval) list \<Rightarrow> (string \<times> jsval) list" where
  "bump k [] =
     (case inherited k of
        None \<Rightarrow> [(k, Count 1)]
      | Some member \<Rightarrow> if k = ''__proto__'' then [] else [(k, Str (member @ ''1''))])"
| "bump k ((k', v) # rest) =
     (if k = k' then (k', plus_one v) # rest else (k', v) # bump k rest)"

definition count_words :: "string list \<Rightarrow> (string \<times> jsval) list" where
  "count_words ws = foldl (\<lambda>m w. bump w m) [] ws"

definition digits_value :: "string \<Rightarrow> int" where
  "digits_value s = foldl (\<lambda>a c. 10 * a + ((of_char c :: int) - 48)) 0 s"

text \<open>A key that is an array index: the decimal numeral, with no leading zero, of an
  integer below \<open>2^32 - 1\<close>.\<close>

definition is_array_index :: "string \<Rightarrow> bool" where
  "is_array_index s =
     (all_digits s \<and> (s = ''0'' \<or> hd s \<noteq> CHR ''0'') \<and> digits_value s < 2 ^ 32 - 1)"

text \<open>\<open>Object.entries(o)\<close>: the array-index keys in ascending numeric order, then the
  other keys in creation order.\<close>

definition object_entries :: "(string \<times> 'v) list \<Rightarrow> (string \<times> 'v) list" where
  "object_entries m =
     sort_key (\<lambda>e. digits_value (fst e)) (filter (\<lambda>e. is_array_index (fst e)) m)
     @ filter (\<lambda>e. \<not> is_array_index (fst e)) m"

record concept =
  name :: string
  frequency :: jsval

definition filteredTokens :: "nlp \<Rightarrow> string \<Rightarrow> string list" where
  "filteredTokens n text =
     filter (\<lambda>token. length token > 2 \<and> \<not> all_digits token \<and> token \<notin> set (stopwords n))
       (tokenize n (toLowerCase text))"

definition wordFreq :: "nlp \<Rightarrow> string \<Rightarrow> (string \<times> jsval) list" where
  "wordFreq n text = count_words (map (stem n) (filteredTokens n text))"

text \<open>\<open>freq > 1\<close>. A text is compared as the number it spells; the texts of \<open>bump\<close>
  start with \<open>function\<close> or \<open>[object\<close> (\<open>count_words_texts\<close> below) and spell none, so
  the comparison is false.\<close>

fun gt_one :: "jsval \<Rightarrow> bool" where
  "gt_one (Count k) = (k > 1)"
| "gt_one (Str s) = False"

text \<open>
  \<open>.sort((a, b) => b[1] - a[1])\<close>. \<open>Array.prototype.sort\<close> is stable, and the difference
  of two counts is a number: with counts only this is the stable sort by descending
  count. A difference with a text is \<open>NaN\<close>, which the sort takes for 0. When the
  entries that have a count all have the same one, every two entries then compare as
  equal, and the stable sort leaves the list as it is. Otherwise the comparison is not
  consistent (an entry with a text is equal to two entries that differ) and the order
  is what the engine makes of it.
\<close>

definition sort_entries :: "nlp \<Rightarrow> (string \<times> jsval) list \<Rightarrow> (string \<times> jsval) list" where
  "sort_entries n es =
     (if list_all (\<lambda>e. is_count (snd e)) es
      then sort_key (\<lambda>e. - int (count_of (snd e))) es
      else if length (remdups (map snd (filter (\<lambda>e. is_count (snd e)) es))) \<le> 1 then es
      else engine_sort n es)"

definition extractConcepts :: "nlp \<Rightarrow> string \<Rightarrow> concept list" where
  "extractConcepts n text =
     map (\<lambda>(word, freq). \<lparr>name = word, frequency = freq\<rparr>)
       (take 50
         (sort_entries n
           (filter (\<lambda>(word, freq). gt_one freq \<or> length word > 4)
             (object_entries (wordFreq n text)))))"


subsection \<open>What the word-count object holds\<close>

text \<open>The value of the own property \<open>w\<close> after \<open>k\<close> occurrences of \<open>w\<close>, from the empty
  object.\<close>

definition held :: "string \<Rightarrow> nat \<Rightarrow> jsval option" where
  "held w k =
     (if k = 0 then None
      else (case inherited w of
              None \<Rightarrow> Some (Count k)
            | Some member \<Rightarrow>
                if w = ''__proto__'' then None
                else Some (Str (member @ replicate k (CHR ''1'')))))"

lemma map_of_bump:
  "map_of (bump k m) =
     (map_of m)(k :=
        (case map_of m k of
           Some v \<Rightarrow> Some (plus_one v)
         | None \<Rightarrow>
             (case inherited k of
                None \<Rightarrow> Some (Count 1)
              | Some member \<Rightarrow>
                  if k = ''__proto__'' then None else Some (Str (member @ ''1'')))))"
  by (induction k m rule: bump.induct) (auto simp: fun_eq_iff split: option.splits)

lemma keys_bump_sub: "fst ` set (bump k m) \<subseteq> insert k (fst ` set m)"
  by (induction k m rule: bump.induct) (auto split: option.splits if_splits)

lemma keys_bump_sup: "fst ` set m \<subseteq> fst ` set (bump k m)"
  by (induction k m rule: bump.induct) (auto split: option.splits if_splits)

lemma distinct_bump: "distinct (map fst m) \<Longrightarrow> distinct (map fst (bump k m))"
proof (induction k m rule: bump.induct)
  case (1 k)
  then show ?case by (simp split: option.splits)
next
  case (2 k k' v rest)
  show ?case
  proof (cases "k = k'")
    case True
    then show ?thesis using 2 by simp
  next
    case False
    have "k' \<notin> fst ` set (bump k rest)"
      using keys_bump_sub [of k rest] 2(2) False by auto
    then show ?thesis using 2 False by simp
  qed
qed

lemma count_words_snoc: "count_words (ws @ [w]) = bump w (count_words ws)"
  by (simp add: count_words_def)

lemma distinct_count_words: "distinct (map fst (count_words ws))"
  by (induction ws rule: rev_induct) (simp_all add: count_words_snoc distinct_bump, simp add: count_words_def)

lemma keys_count_words: "fst ` set (count_words ws) \<subseteq> set ws"
proof (induction ws rule: rev_induct)
  case Nil
  then show ?case by (simp add: count_words_def)
next
  case (snoc w ws)
  have "fst ` set (count_words (ws @ [w])) \<subseteq> insert w (fst ` set (count_words ws))"
    using keys_bump_sub [of w "count_words ws"] by (simp add: count_words_snoc)
  also have "\<dots> \<subseteq> set (ws @ [w])" using snoc by auto
  finally show ?case .
qed

lemma member_not_empty: "inherited w = Some member \<Longrightarrow> member \<noteq> []"
  by (auto simp: inherited_def prototype_members_def split: if_splits)

lemma count_words_lookup: "map_of (count_words ws) w = held w (count_list ws w)"
proof (induction ws rule: rev_induct)
  case Nil
  then show ?case by (simp add: count_words_def held_def)
next
  case (snoc k ws)
  show ?case
  proof (cases "w = k")
    case False
    then show ?thesis using snoc by (simp add: count_words_snoc map_of_bump)
  next
    case True
    let ?c = "count_list ws k"
    have old: "map_of (count_words ws) k = held k ?c" using snoc True by simp
    have new: "count_list (ws @ [k]) k = ?c + 1" by simp
    show ?thesis
    proof (cases "inherited k")
      case None
      then show ?thesis
        using old by (simp add: True count_words_snoc map_of_bump held_def)
    next
      case (Some member)
      then have ne: "member \<noteq> []" by (rule member_not_empty)
      have r: "replicate ?c (CHR ''1'') @ ''1'' = CHR ''1'' # replicate ?c (CHR ''1'')"
        by (simp add: replicate_append_same)
      show ?thesis
      proof (cases "k = ''__proto__''")
        case proto: True
        have "map_of (count_words ws) k = None" using old Some proto by (simp add: held_def)
        then show ?thesis
          using Some proto by (simp add: True count_words_snoc map_of_bump held_def)
      next
        case other: False
        show ?thesis
        proof (cases "?c = 0")
          case zero: True
          then have "map_of (count_words ws) k = None" using old by (simp add: held_def)
          then show ?thesis
            using Some other zero by (simp add: True count_words_snoc map_of_bump held_def)
        next
          case pos: False
          then have "map_of (count_words ws) k = Some (Str (member @ replicate ?c (CHR ''1'')))"
            using old Some other by (simp add: held_def)
          then show ?thesis
            using Some other pos ne r
            by (simp add: True count_words_snoc map_of_bump held_def)
        qed
      qed
    qed
  qed
qed

lemma set_count_words:
  "set (count_words ws) = {(w, v). held w (count_list ws w) = Some v}"
proof -
  have "(w, v) \<in> set (count_words ws) \<longleftrightarrow> held w (count_list ws w) = Some v" for w v
    using map_of_eq_Some_iff [OF distinct_count_words, of ws w v]
    by (simp add: count_words_lookup)
  then show ?thesis by auto
qed

text \<open>A text of the word-count object starts with \<open>f\<close> or with a bracket: it spells no
  number.\<close>

lemma count_words_texts:
  assumes "(w, Str s) \<in> set (count_words ws)"
  shows "s \<noteq> [] \<and> (hd s = CHR ''f'' \<or> hd s = CHR ''['')"
proof -
  from assms have h: "held w (count_list ws w) = Some (Str s)"
    by (simp add: set_count_words)
  then obtain member where m: "inherited w = Some member"
    and s: "s = member @ replicate (count_list ws w) (CHR ''1'')"
    by (auto simp: held_def split: if_splits option.splits)
  from m have "member \<noteq> [] \<and> (hd member = CHR ''f'' \<or> hd member = CHR ''['')"
    by (auto simp: inherited_def prototype_members_def split: if_splits)
  then show ?thesis using s by auto
qed

text \<open>When no word names an inherited member, the object holds the number of
  occurrences of every word.\<close>

definition plain_words :: "string list \<Rightarrow> bool" where
  "plain_words ws = list_all (\<lambda>w. inherited w = None) ws"

lemma set_count_words_plain:
  assumes "plain_words ws"
  shows "set (count_words ws) = {(w, Count (count_list ws w)) | w. w \<in> set ws}"
proof -
  have "held w (count_list ws w) = Some v \<longleftrightarrow> w \<in> set ws \<and> v = Count (count_list ws w)" for w v
  proof (cases "w \<in> set ws")
    case True
    then have "inherited w = None" "count_list ws w \<noteq> 0"
      using assms by (auto simp: plain_words_def list_all_iff count_list_0_iff)
    then show ?thesis using True by (auto simp: held_def)
  next
    case False
    then show ?thesis by (simp add: held_def count_list_0_iff)
  qed
  then show ?thesis by (auto simp: set_count_words)
qed

lemma mset_object_entries: "mset (object_entries m) = mset m"
  by (simp add: object_entries_def)

lemma set_object_entries: "set (object_entries m) = set m"
  using mset_object_entries [of m] by (metis set_mset_mset)

lemma distinct_keys_object_entries:
  "distinct (map fst (object_entries m)) \<longleftrightarrow> distinct (map fst m)"
proof -
  have "mset (map fst (object_entries m)) = mset (map fst m)"
    using mset_object_entries [of m] by (metis mset_map)
  then show ?thesis by (rule mset_eq_imp_distinct_iff)
qed


lemma filter_take_prefix: "\<exists>m. filter P (take n xs) = take m (filter P xs)"
proof -
  have "filter P xs = filter P (take n xs) @ filter P (drop n xs)"
    by (metis append_take_drop_id filter_append)
  then have "take (length (filter P (take n xs))) (filter P xs) = filter P (take n xs)"
    by simp
  then show ?thesis by metis
qed

lemma sorted_take_drop_le:
  assumes "sorted (map f xs)" and "x \<in> set (take n xs)" and "y \<in> set (drop n xs)"
  shows "f x \<le> f y"
proof -
  have "sorted (map f (take n xs) @ map f (drop n xs))"
    using assms(1) by (metis append_take_drop_id map_append)
  then show ?thesis using assms(2,3) by (auto simp: sorted_append)
qed

subsection \<open>Texts without inherited names\<close>

definition stems :: "nlp \<Rightarrow> string \<Rightarrow> string list" where
  "stems n text = map (stem n) (filteredTokens n text)"

definition mk_concept :: "string \<times> jsval \<Rightarrow> concept" where
  "mk_concept e = \<lparr>name = fst e, frequency = snd e\<rparr>"

definition kept :: "string \<times> jsval \<Rightarrow> bool" where
  "kept e = (gt_one (snd e) \<or> length (fst e) > 4)"

lemma set_wordFreq:
  "plain_words (stems n text) \<Longrightarrow>
   set (wordFreq n text) = {(w, Count (count_list (stems n text) w)) | w. w \<in> set (stems n text)}"
  by (simp add: wordFreq_def stems_def set_count_words_plain)

lemma distinct_wordFreq: "distinct (map fst (wordFreq n text))"
  by (simp add: wordFreq_def distinct_count_words)

lemma extractConcepts_alt:
  assumes "plain_words (stems n text)"
  shows "extractConcepts n text =
     map mk_concept (take 50 (sort_key (\<lambda>e. - int (count_of (snd e)))
       (filter kept (object_entries (wordFreq n text)))))"
proof -
  have 1: "(\<lambda>(word, freq). \<lparr>name = word, frequency = freq\<rparr>) = mk_concept"
    by (auto simp: mk_concept_def fun_eq_iff)
  have 2: "(\<lambda>(word, freq). gt_one freq \<or> length word > 4) = kept"
    by (auto simp: kept_def fun_eq_iff)
  have "list_all (\<lambda>e. is_count (snd e)) (filter kept (object_entries (wordFreq n text)))"
    using set_wordFreq [OF assms] by (auto simp: list_all_iff set_object_entries)
  then show ?thesis unfolding extractConcepts_def 1 2 by (simp add: sort_entries_def)
qed

lemma extractConcepts_distinct:
  assumes "plain_words (stems n text)"
  shows "distinct (map name (extractConcepts n text))"
proof -
  let ?F = "filter kept (object_entries (wordFreq n text))"
  let ?S = "sort_key (\<lambda>e. - int (count_of (snd e))) ?F"
  have "distinct (map fst (object_entries (wordFreq n text)))"
    by (simp add: distinct_keys_object_entries distinct_wordFreq)
  then have "distinct (map fst ?F)" by (rule distinct_map_filter)
  moreover have "mset (map fst ?S) = mset (map fst ?F)" by simp
  ultimately have "distinct (map fst ?S)" by (metis mset_eq_imp_distinct_iff)
  then have "distinct (take 50 (map fst ?S))" by (rule distinct_take)
  moreover have "map name (extractConcepts n text) = take 50 (map fst ?S)"
    by (simp add: extractConcepts_alt [OF assms] take_map mk_concept_def comp_def)
  ultimately show ?thesis by simp
qed

lemma extractConcepts_length: "length (extractConcepts n text) \<le> 50"
  by (simp add: extractConcepts_def)

lemma extractConcepts_sorted:
  assumes "plain_words (stems n text)"
  shows "sorted_wrt (\<lambda>a b. count_of (frequency b) \<le> count_of (frequency a))
     (extractConcepts n text)"
proof -
  let ?key = "\<lambda>e :: string \<times> jsval. - int (count_of (snd e))"
  let ?S = "sort_key ?key (filter kept (object_entries (wordFreq n text)))"
  have "sorted (map ?key ?S)" by (rule sorted_sort_key)
  then have "sorted (take 50 (map ?key ?S))" by (rule sorted_wrt_take)
  then have "sorted_wrt (\<lambda>a b. ?key a \<le> ?key b) (take 50 ?S)"
    by (simp add: take_map sorted_map)
  then show ?thesis
    by (simp add: extractConcepts_alt [OF assms] sorted_wrt_map mk_concept_def)
qed

lemma extractConcepts_sound:
  assumes "plain_words (stems n text)" and "c \<in> set (extractConcepts n text)"
  shows "name c \<in> set (stems n text)
         \<and> frequency c = Count (count_list (stems n text) (name c))
         \<and> (1 < count_list (stems n text) (name c) \<or> 4 < length (name c))"
proof -
  let ?F = "filter kept (object_entries (wordFreq n text))"
  let ?S = "sort_key (\<lambda>e. - int (count_of (snd e))) ?F"
  from assms obtain e where e: "e \<in> set (take 50 ?S)" "c = mk_concept e"
    by (auto simp: extractConcepts_alt)
  from e(1) have "e \<in> set ?S" by (rule in_set_takeD)
  then have "e \<in> set (wordFreq n text)" "kept e" by (auto simp: set_object_entries)
  then show ?thesis
    using e(2) by (auto simp: set_wordFreq [OF assms(1)] mk_concept_def kept_def)
qed

lemma extractConcepts_complete:
  assumes p: "plain_words (stems n text)" and w: "w \<in> set (stems n text)"
    and k: "1 < count_list (stems n text) w \<or> 4 < length w"
  shows "\<lparr>name = w, frequency = Count (count_list (stems n text) w)\<rparr>
       \<in> set (extractConcepts n text)
     \<or> (length (extractConcepts n text) = 50
        \<and> (\<forall>c \<in> set (extractConcepts n text).
              count_list (stems n text) w \<le> count_of (frequency c)))"
proof -
  let ?F = "filter kept (object_entries (wordFreq n text))"
  let ?key = "\<lambda>e :: string \<times> jsval. - int (count_of (snd e))"
  let ?S = "sort_key ?key ?F"
  let ?e = "(w, Count (count_list (stems n text) w))"
  have "?e \<in> set (wordFreq n text)" using w by (auto simp: set_wordFreq [OF p])
  moreover have "kept ?e" using k by (simp add: kept_def)
  ultimately have inS: "?e \<in> set ?S" by (simp add: set_object_entries)
  have mk: "mk_concept ?e = \<lparr>name = w, frequency = Count (count_list (stems n text) w)\<rparr>"
    by (simp add: mk_concept_def)
  show ?thesis
  proof (cases "?e \<in> set (take 50 ?S)")
    case True
    then have "mk_concept ?e \<in> set (extractConcepts n text)"
      by (simp add: extractConcepts_alt [OF p])
    then show ?thesis by (simp add: mk)
  next
    case False
    with inS have d: "?e \<in> set (drop 50 ?S)"
      by (metis Un_iff append_take_drop_id set_append)
    then have "drop 50 ?S \<noteq> []" by auto
    then have len: "length (extractConcepts n text) = 50"
      by (simp add: extractConcepts_alt [OF p])
    have "count_list (stems n text) w \<le> count_of (frequency c)"
      if "c \<in> set (extractConcepts n text)" for c
    proof -
      from that obtain e where e: "e \<in> set (take 50 ?S)" "c = mk_concept e"
        by (auto simp: extractConcepts_alt [OF p])
      have "sorted (map ?key ?S)" by (rule sorted_sort_key)
      from sorted_take_drop_le [OF this e(1) d] show ?thesis
        using e(2) by (simp add: mk_concept_def)
    qed
    with len show ?thesis by blast
  qed
qed

lemma extractConcepts_stable:
  assumes p: "plain_words (stems n text)"
  shows "\<exists>m. filter (\<lambda>c. frequency c = Count k) (extractConcepts n text) =
     take m (filter (\<lambda>c. frequency c = Count k \<and> (1 < k \<or> 4 < length (name c)))
       (map mk_concept (object_entries (wordFreq n text))))"
proof -
  let ?E = "object_entries (wordFreq n text)"
  let ?key = "\<lambda>e :: string \<times> jsval. - int (count_of (snd e))"
  let ?S = "sort_key ?key (filter kept ?E)"
  let ?P = "\<lambda>e :: string \<times> jsval. ?key e = - int k"
  have counts: "is_count (snd e)" if "e \<in> set ?E" for e
    using that set_wordFreq [OF p] by (auto simp: set_object_entries)
  have P: "?P e \<longleftrightarrow> snd e = Count k" if "e \<in> set ?E" for e
    using counts [OF that] by (cases "snd e") auto
  obtain m where m: "filter ?P (take 50 ?S) = take m (filter ?P ?S)"
    using filter_take_prefix by blast
  have "filter ?P ?S = filter ?P (filter kept ?E)" by (rule sort_key_stable)
  also have "\<dots> = filter (\<lambda>e. snd e = Count k \<and> (1 < k \<or> 4 < length (fst e))) ?E"
  proof -
    have "kept e \<and> ?P e \<longleftrightarrow> snd e = Count k \<and> (1 < k \<or> 4 < length (fst e))"
      if "e \<in> set ?E" for e
      using P [OF that] by (cases "snd e") (auto simp: kept_def)
    then have "filter (\<lambda>e. kept e \<and> ?P e) ?E
        = filter (\<lambda>e. snd e = Count k \<and> (1 < k \<or> 4 < length (fst e))) ?E"
      by (intro filter_cong) auto
    then show ?thesis by simp
  qed
  finally have "filter ?P (take 50 ?S) =
      take m (filter (\<lambda>e. snd e = Count k \<and> (1 < k \<or> 4 < length (fst e))) ?E)"
    using m by simp
  moreover have "filter ?P (take 50 ?S) = filter (\<lambda>e. snd e = Count k) (take 50 ?S)"
  proof (rule filter_cong [OF refl])
    fix e assume "e \<in> set (take 50 ?S)"
    then have "e \<in> set ?S" by (rule in_set_takeD)
    then have "e \<in> set ?E" by simp
    then show "?P e \<longleftrightarrow> snd e = Count k" by (rule P)
  qed
  ultimately have "map mk_concept (filter (\<lambda>e. snd e = Count k) (take 50 ?S)) =
      take m (map mk_concept (filter (\<lambda>e. snd e = Count k \<and> (1 < k \<or> 4 < length (fst e))) ?E))"
    by (simp add: take_map)
  then have "filter (\<lambda>c. frequency c = Count k) (extractConcepts n text) =
     take m (filter (\<lambda>c. frequency c = Count k \<and> (1 < k \<or> 4 < length (name c)))
       (map mk_concept ?E))"
    by (simp add: extractConcepts_alt [OF p] filter_map comp_def mk_concept_def)
  then show ?thesis by blast
qed

text \<open>
  For a text none of whose stems names an inherited member, \<open>extractConcepts\<close> returns
  pairs of a name and a count with pairwise different names: every pair is a stem of the
  text with its number of occurrences, and has a count above 1 or a name longer than 4
  characters; every stem that passes this test is returned unless the cap of 50 cuts it
  off behind 50 pairs of at least its count; the pairs are in descending order of
  count, pairs of equal count in the order of \<open>Object.entries\<close>; and there are at most 50
  pairs.
\<close>

lemma extractConcepts_counts:
  assumes "plain_words (stems n text)"
  shows "distinct (map name (extractConcepts n text))
   \<and> length (extractConcepts n text) \<le> 50
   \<and> sorted_wrt (\<lambda>a b. count_of (frequency b) \<le> count_of (frequency a))
        (extractConcepts n text)
   \<and> (\<forall>c \<in> set (extractConcepts n text).
         name c \<in> set (stems n text)
         \<and> frequency c = Count (count_list (stems n text) (name c))
         \<and> (1 < count_list (stems n text) (name c) \<or> 4 < length (name c)))
   \<and> (\<forall>w \<in> set (stems n text).
         1 < count_list (stems n text) w \<or> 4 < length w \<longrightarrow>
           \<lparr>name = w, frequency = Count (count_list (stems n text) w)\<rparr>
             \<in> set (extractConcepts n text)
           \<or> (length (extractConcepts n text) = 50
              \<and> (\<forall>c \<in> set (extractConcepts n text).
                    count_list (stems n text) w \<le> count_of (frequency c))))
   \<and> (\<forall>k. \<exists>m. filter (\<lambda>c. frequency c = Count k) (extractConcepts n text) =
         take m (filter (\<lambda>c. frequency c = Count k \<and> (1 < k \<or> 4 < length (name c)))
           (map mk_concept (object_entries (wordFreq n text)))))"
  using extractConcepts_distinct [OF assms] extractConcepts_length [of n "text"]
    extractConcepts_sorted [OF assms] extractConcepts_sound [OF assms]
    extractConcepts_complete [OF assms] extractConcepts_stable [OF assms]
  by blast

text \<open>A sample of the collaborator, for evaluation: a tokenizer that splits at every
  character that is not a letter, a digit or an underscore, a short stop-word list, a
  stemmer that strips a final \<open>s\<close>, and an engine that leaves a list it cannot order as
  it is.\<close>

definition sample_nlp :: nlp where
  "sample_nlp =
     \<lparr>tokenize = word_tokens,
      stopwords = [''the'', ''and'', ''what'', ''who'', ''with'', ''are'', ''was''],
      stem = (\<lambda>w. if 3 < length w \<and> last w = CHR ''s'' then butlast w else w),
      engine_sort = (\<lambda>entries. entries)\<rparr>"

lemma extractConcepts_sample:
  "extractConcepts sample_nlp
     ''Graphs and the 1990s trees: graph, tree, Tree, cat; 1990s dog. 77777 owl owl''
   = [\<lparr>name = ''tree'', frequency = Count 3\<rparr>, \<lparr>name = ''1990'', frequency = Count 2\<rparr>,
      \<lparr>name = ''graph'', frequency = Count 2\<rparr>, \<lparr>name = ''owl'', frequency = Count 2\<rparr>]"
  "plain_words (stems sample_nlp
     ''Graphs and the 1990s trees: graph, tree, Tree, cat; 1990s dog. 77777 owl owl'')"
  by code_simp+

text \<open>
  C4. A stem that names a member every object inherits is not counted: the word-count
  object is an object literal, and the first read of such a key finds the inherited
  member. For the text "graph graph constructor tree tree tree" the pair of
  \<open>constructor\<close> has as frequency the text of the function \<open>Object\<close> followed by \<open>1\<close>, not
  the count 1; the comparison of the sort is then not consistent, and with an engine
  that leaves the list as it is the result has \<open>graph\<close> with 2 before \<open>tree\<close> with 3. The
  stem \<open>__proto__\<close> is never stored: with two occurrences it passes the test of the
  contract (a frequency above 1, a name longer than 4 characters) and is not returned.
  Without such a stem the contract holds (\<open>extractConcepts_counts\<close>).
\<close>

theorem extractConcepts_inherited_key:
  "stems sample_nlp ''graph graph constructor tree tree tree''
     = [''graph'', ''graph'', ''constructor'', ''tree'', ''tree'', ''tree'']
   \<and> wordFreq sample_nlp ''graph graph constructor tree tree tree''
     = [(''graph'', Count 2), (''constructor'', Str ''function Object() { [native code] }1''),
        (''tree'', Count 3)]
   \<and> extractConcepts sample_nlp ''graph graph constructor tree tree tree''
     = [\<lparr>name = ''graph'', frequency = Count 2\<rparr>,
        \<lparr>name = ''constructor'', frequency = Str ''function Object() { [native code] }1''\<rparr>,
        \<lparr>name = ''tree'', frequency = Count 3\<rparr>]
   \<and> extractConcepts sample_nlp ''constructor graph graph constructor''
     = [\<lparr>name = ''constructor'', frequency = Str ''function Object() { [native code] }11''\<rparr>,
        \<lparr>name = ''graph'', frequency = Count 2\<rparr>]
   \<and> stems sample_nlp ''__proto__ graph __proto__ graph''
     = [''__proto__'', ''graph'', ''__proto__'', ''graph'']
   \<and> extractConcepts sample_nlp ''__proto__ graph __proto__ graph''
     = [\<lparr>name = ''graph'', frequency = Count 2\<rparr>]"
  by code_simp

section \<open>The graph store\<close>

text \<open>
  The store holds Document, Concept and Entity nodes, CONTAINS edges from a document to
  a concept or an entity, RELATED\_TO edges between concepts, and typed relationships
  between entities. Nodes are identified by their key (a document by its id, a concept
  and an entity by its name), as the uniqueness constraints of the schema make them.
  Properties that nothing reads (the creation times, the descriptions of relationships)
  are left out. A frequency is what the source passes as parameter: a count, or the text
  that the word-count object holds for an inherited name. \<open>clears\<close> counts the executions of the statement that deletes every
  node.
\<close>

datatype jsnum = Num nat | NaN

fun js_add :: "jsnum \<Rightarrow> jsnum \<Rightarrow> jsnum" where
  "js_add (Num a) (Num b) = Num (a + b)"
| "js_add _ _ = NaN"

text \<open>
  \<open>c.frequency + $frequency\<close> in the store: the sum of two numbers; with a text, the
  concatenation. The driver sends a JavaScript number as a float, and the text of a
  whole float in a concatenation is its decimal numeral followed by \<open>.0\<close>.
\<close>

function decimal :: "nat \<Rightarrow> string" where
  "decimal k =
     (if k < 10 then [char_of (48 + k)] else decimal (k div 10) @ [char_of (48 + k mod 10)])"
  by pat_completeness auto
termination by (relation "measure id") auto

declare decimal.simps [simp del]

definition float_text :: "nat \<Rightarrow> string" where
  "float_text k = decimal k @ ''.0''"

fun cy_add :: "jsval \<Rightarrow> jsval \<Rightarrow> jsval" where
  "cy_add (Count a) (Count b) = Count (a + b)"
| "cy_add (Count a) (Str t) = Str (float_text a @ t)"
| "cy_add (Str s) (Count b) = Str (s @ float_text b)"
| "cy_add (Str s) (Str t) = Str (s @ t)"

datatype community = Component nat | Bucket string

datatype label = ConceptL | EntityL

record document =
  doc_id :: string
  doc_name :: string
  doc_content :: string
  doc_type :: string
  doc_size :: int

record entity =
  e_name :: string
  e_type :: string
  e_description :: string
  e_frequency :: jsval
  e_community :: "community option"

record contains_edge =
  ce_doc :: string
  ce_label :: label
  ce_target :: string
  ce_weight :: jsval

record related_edge =
  r_from :: string
  r_to :: string
  r_weight :: jsnum

record entity_rel =
  er_from :: string
  er_to :: string
  er_type :: string
  er_matches :: nat

record graph =
  documents :: "document list"
  concepts :: "concept list"
  entities :: "entity list"
  contains :: "contains_edge list"
  related :: "related_edge list"
  entity_rels :: "entity_rel list"
  clears :: nat

definition empty_graph :: graph where
  "empty_graph = \<lparr>documents = [], concepts = [], entities = [], contains = [],
     related = [], entity_rels = [], clears = 0\<rparr>"

text \<open>\<open>MATCH (n) DETACH DELETE n\<close>\<close>

definition clear_graph :: "graph \<Rightarrow> graph" where
  "clear_graph g = \<lparr>documents = [], concepts = [], entities = [], contains = [],
     related = [], entity_rels = [], clears = clears g + 1\<rparr>"

text \<open>\<open>CREATE (d:Document {...})\<close>: fails when the id is taken (constraint on \<open>d.id\<close>).\<close>

definition create_document :: "document \<Rightarrow> graph \<Rightarrow> graph option" where
  "create_document d g =
     (if doc_id d \<in> set (map doc_id (documents g)) then None
      else Some (g\<lparr>documents := documents g @ [d]\<rparr>))"

text \<open>\<open>MERGE (c:Concept {name: $name}) ON CREATE SET c.frequency = $f
  ON MATCH SET c.frequency = c.frequency + $f\<close>\<close>

definition merge_concept :: "string \<Rightarrow> jsval \<Rightarrow> graph \<Rightarrow> graph" where
  "merge_concept nm f g =
     (if nm \<in> set (map name (concepts g))
      then g\<lparr>concepts :=
             map (\<lambda>c. if name c = nm then c\<lparr>frequency := cy_add (frequency c) f\<rparr> else c) (concepts g)\<rparr>
      else g\<lparr>concepts := concepts g @ [\<lparr>name = nm, frequency = f\<rparr>]\<rparr>)"

text \<open>\<open>MERGE (e:Entity {name: $name}) ON CREATE SET e.type = $type, e.description =
  $description, e.frequency = $frequency ON MATCH SET e.frequency = e.frequency +
  $frequency\<close>\<close>

definition merge_entity :: "string \<Rightarrow> string \<Rightarrow> string \<Rightarrow> jsval \<Rightarrow> graph \<Rightarrow> graph" where
  "merge_entity nm ty descr f g =
     (if nm \<in> set (map e_name (entities g))
      then g\<lparr>entities :=
             map (\<lambda>e. if e_name e = nm then e\<lparr>e_frequency := cy_add (e_frequency e) f\<rparr> else e)
               (entities g)\<rparr>
      else g\<lparr>entities := entities g @
             [\<lparr>e_name = nm, e_type = ty, e_description = descr, e_frequency = f,
               e_community = None\<rparr>]\<rparr>)"

text \<open>\<open>MATCH (d:Document {id: $docId}), (c:Label {name: $name}) CREATE
  (d)-[:CONTAINS {...}]->(c)\<close>: one edge when both nodes exist.\<close>

definition node_exists :: "label \<Rightarrow> string \<Rightarrow> graph \<Rightarrow> bool" where
  "node_exists l nm g =
     (case l of ConceptL \<Rightarrow> nm \<in> set (map name (concepts g))
              | EntityL \<Rightarrow> nm \<in> set (map e_name (entities g)))"

definition create_contains :: "string \<Rightarrow> label \<Rightarrow> string \<Rightarrow> jsval \<Rightarrow> graph \<Rightarrow> graph" where
  "create_contains docId l nm w g =
     (if docId \<in> set (map doc_id (documents g)) \<and> node_exists l nm g
      then g\<lparr>contains := contains g @
             [\<lparr>ce_doc = docId, ce_label = l, ce_target = nm, ce_weight = w\<rparr>]\<rparr>
      else g)"

text \<open>An edge joins \<open>a\<close> and \<open>b\<close> in either direction: the undirected pattern
  \<open>(c1)-[r:RELATED_TO]-(c2)\<close>.\<close>

definition links :: "string \<Rightarrow> string \<Rightarrow> related_edge \<Rightarrow> bool" where
  "links a b e = ((r_from e = a \<and> r_to e = b) \<or> (r_from e = b \<and> r_to e = a))"

text \<open>\<open>MATCH (c1:Concept {name: $a}), (c2:Concept {name: $b}) MERGE
  (c1)-[r:RELATED_TO]-(c2) ON CREATE SET r.weight = $w ON MATCH SET r.weight = r.weight +
  $w\<close>: nothing without both nodes; every edge that joins them is updated; with none, one
  is created from \<open>a\<close> to \<open>b\<close>.\<close>

definition merge_related :: "string \<Rightarrow> string \<Rightarrow> jsnum \<Rightarrow> graph \<Rightarrow> graph" where
  "merge_related a b w g =
     (if node_exists ConceptL a g \<and> node_exists ConceptL b g then
        (if list_ex (links a b) (related g)
         then g\<lparr>related :=
                map (\<lambda>e. if links a b e then e\<lparr>r_weight := js_add (r_weight e) w\<rparr> else e)
                  (related g)\<rparr>
         else g\<lparr>related := related g @ [\<lparr>r_from = a, r_to = b, r_weight = w\<rparr>]\<rparr>)
      else g)"

text \<open>The retrieval of the edges between two concepts, with the same undirected
  pattern.\<close>

definition edges_between :: "graph \<Rightarrow> string \<Rightarrow> string \<Rightarrow> related_edge list" where
  "edges_between g a b = filter (links a b) (related g)"

definition concept_frequency :: "graph \<Rightarrow> string \<Rightarrow> jsval option" where
  "concept_frequency g nm = map_option frequency (find (\<lambda>c. name c = nm) (concepts g))"


section \<open>Ingestion (knowledge-graph.js)\<close>

text \<open>
  What a loop over extracted items handles: a concept of \<open>extractConcepts\<close> (a name and a
  frequency) or an entity of the enrichment reply (a name, a type and a description). A
  field that the object does not have is \<open>None\<close>.
\<close>

record candidate =
  c_name :: string
  c_type :: "string option"
  c_description :: "string option"
  c_frequency :: "jsval option"

definition as_candidate :: "concept \<Rightarrow> candidate" where
  "as_candidate c =
     \<lparr>c_name = name c, c_type = None, c_description = None, c_frequency = Some (frequency c)\<rparr>"

text \<open>\<open>Math.min(a.frequency, b.frequency)\<close>, which is \<open>NaN\<close> when a frequency is missing
  or is a text that spells no number.\<close>

definition weight_of :: "candidate \<Rightarrow> candidate \<Rightarrow> jsnum" where
  "weight_of a b =
     (case (c_frequency a, c_frequency b) of
        (Some (Count x), Some (Count y)) \<Rightarrow> Num (min x y)
      | _ \<Rightarrow> NaN)"

fun createConceptRelationships :: "candidate list \<Rightarrow> graph \<Rightarrow> graph" where
  "createConceptRelationships [] g = g"
| "createConceptRelationships (c # cs) g =
     createConceptRelationships cs
       (fold (\<lambda>d. merge_related (c_name c) (c_name d) (weight_of c d)) cs g)"

record llm_rel =
  rel_source :: string
  rel_target :: string
  rel_type :: "string option"

record llm_reply =
  reply_entities :: "candidate list"
  reply_relationships :: "llm_rel list option"

text \<open>
  The environment of an ingestion: the language collaborator, whether an API key is set,
  the enrichment service (\<open>None\<close>: the request or the parsing of its reply failed; a
  reply that parses is taken to have the shape the prompt asks for), and the ceiling
  \<open>maxFileSize\<close> in bytes.
\<close>

record env =
  nlp_of :: nlp
  api_key :: bool
  llm :: "string \<Rightarrow> llm_reply option"
  maxFileSize :: int

text \<open>The result of \<open>extractEntitiesWithLLM\<close>: the array of concepts, or an object with
  entities and relationships.\<close>

datatype extraction = Plain "concept list" | Enriched llm_reply

definition extractEntitiesWithLLM :: "env \<Rightarrow> string \<Rightarrow> extraction" where
  "extractEntitiesWithLLM ev content =
     (if \<not> api_key ev then Plain (extractConcepts (nlp_of ev) content)
      else (case llm ev (substring 0 2000 content) of
              Some reply \<Rightarrow> Enriched reply
            | None \<Rightarrow>
                Enriched \<lparr>reply_entities = map as_candidate (extractConcepts (nlp_of ev) content),
                          reply_relationships = Some []\<rparr>))"

text \<open>\<open>extracted.entities || extracted\<close> and \<open>extracted.relationships\<close>\<close>

definition extracted_entities :: "extraction \<Rightarrow> candidate list" where
  "extracted_entities x =
     (case x of Plain cs \<Rightarrow> map as_candidate cs | Enriched r \<Rightarrow> reply_entities r)"

definition extracted_relationships :: "extraction \<Rightarrow> llm_rel list option" where
  "extracted_relationships x =
     (case x of Plain cs \<Rightarrow> None | Enriched r \<Rightarrow> reply_relationships r)"

text \<open>The body of the loop over the entities of a file: \<open>entity.type || 'CONCEPT'\<close>,
  \<open>entity.description || ''\<close>, \<open>entity.frequency || 1\<close>.\<close>

definition store_entity :: "string \<Rightarrow> candidate \<Rightarrow> graph \<Rightarrow> graph" where
  "store_entity docId c g =
     (let f = (case c_frequency c of
                 Some (Count k) \<Rightarrow> if k = 0 then Count 1 else Count k
               | Some (Str s) \<Rightarrow> if s = [] then Count 1 else Str s
               | None \<Rightarrow> Count 1);
          ty = (case c_type c of Some t \<Rightarrow> if t = [] then ''CONCEPT'' else t | None \<Rightarrow> ''CONCEPT'');
          de = (case c_description c of Some d \<Rightarrow> d | None \<Rightarrow> [])
      in create_contains docId EntityL (c_name c) f (merge_entity (c_name c) ty de f g))"

text \<open>The body of the loop over the concepts of a page.\<close>

definition store_concept :: "string \<Rightarrow> concept \<Rightarrow> graph \<Rightarrow> graph" where
  "store_concept docId c g =
     create_contains docId ConceptL (name c) (frequency c) (merge_concept (name c) (frequency c) g)"

text \<open>
  \<open>MERGE (e1)-[r:TYPE]->(e2)\<close> between two entities, the type spliced into the statement
  (\<open>rel.type || 'RELATED_TO'\<close>). A type that is not an identifier is taken to make the
  statement fail; the failure is caught and the relationship skipped.
\<close>

definition rel_type_ok :: "string \<Rightarrow> bool" where
  "rel_type_ok t = (t \<noteq> [] \<and> list_all word_char t \<and> \<not> is_digit (hd t))"

definition merge_entity_rel :: "llm_rel \<Rightarrow> graph \<Rightarrow> graph" where
  "merge_entity_rel r g =
     (let ty = (case rel_type r of Some t \<Rightarrow> if t = [] then ''RELATED_TO'' else t
                                 | None \<Rightarrow> ''RELATED_TO'');
          same = (\<lambda>e. er_from e = rel_source r \<and> er_to e = rel_target r \<and> er_type e = ty)
      in if \<not> rel_type_ok ty then g
         else if node_exists EntityL (rel_source r) g \<and> node_exists EntityL (rel_target r) g then
           (if list_ex same (entity_rels g)
            then g\<lparr>entity_rels :=
                   map (\<lambda>e. if same e then e\<lparr>er_matches := er_matches e + 1\<rparr> else e)
                     (entity_rels g)\<rparr>
            else g\<lparr>entity_rels := entity_rels g @
                   [\<lparr>er_from = rel_source r, er_to = rel_target r, er_type = ty,
                     er_matches = 0\<rparr>]\<rparr>)
         else g)"

definition createEntityRelationships :: "llm_rel list \<Rightarrow> string \<Rightarrow> graph \<Rightarrow> graph" where
  "createEntityRelationships relationships docId g = fold merge_entity_rel relationships g"

text \<open>
  A file to ingest, as the file system presents it: its base name, the size \<open>fs.stat\<close>
  reports (\<open>None\<close>: the call fails), the text \<open>fs.readFile\<close> returns (\<open>None\<close>: it fails)
  and the reading of the clock that ends the document id.
\<close>

record file_source =
  f_name :: string
  f_stat :: "int option"
  f_read :: "string option"
  f_stamp :: string

definition ingestFile :: "env \<Rightarrow> file_source \<Rightarrow> bool \<Rightarrow> graph \<Rightarrow> bool \<times> graph" where
  "ingestFile ev f clear g =
     (case f_stat f of
        None \<Rightarrow> (False, g)
      | Some sz \<Rightarrow>
          if sz > maxFileSize ev then (False, g)
          else (case f_read f of
                  None \<Rightarrow> (False, g)
                | Some content \<Rightarrow>
                    (let g1 = (if clear then clear_graph g else g);
                         extracted = extractEntitiesWithLLM ev content;
                         docId = f_name f @ ''_'' @ f_stamp f
                     in case create_document
                              \<lparr>doc_id = docId, doc_name = f_name f,
                               doc_content = substring 0 1000 content, doc_type = ''file'',
                               doc_size = sz\<rparr> g1 of
                          None \<Rightarrow> (False, g1)
                        | Some g2 \<Rightarrow>
                            (let ents = extracted_entities extracted;
                                 g3 = fold (store_entity docId) ents g2;
                                 g4 = (case extracted_relationships extracted of
                                         Some rels \<Rightarrow> createEntityRelationships rels docId g3
                                       | None \<Rightarrow> g3);
                                 g5 = (case extracted_relationships extracted of
                                         Some (r # rs) \<Rightarrow> g4
                                       | _ \<Rightarrow> createConceptRelationships ents g4)
                             in (True, g5)))))"

text \<open>The first version of \<open>ingestFile\<close>, kept in the second half of the file: concepts
  only.\<close>

definition ingestFile_legacy :: "env \<Rightarrow> file_source \<Rightarrow> bool \<Rightarrow> graph \<Rightarrow> bool \<times> graph" where
  "ingestFile_legacy ev f clear g =
     (case f_stat f of
        None \<Rightarrow> (False, g)
      | Some sz \<Rightarrow>
          if sz > maxFileSize ev then (False, g)
          else (case f_read f of
                  None \<Rightarrow> (False, g)
                | Some content \<Rightarrow>
                    (let g1 = (if clear then clear_graph g else g);
                         cs = extractConcepts (nlp_of ev) content;
                         docId = f_name f @ ''_'' @ f_stamp f
                     in case create_document
                              \<lparr>doc_id = docId, doc_name = f_name f,
                               doc_content = substring 0 1000 content, doc_type = ''file'',
                               doc_size = sz\<rparr> g1 of
                          None \<Rightarrow> (False, g1)
                        | Some g2 \<Rightarrow>
                            (True, createConceptRelationships (map as_candidate cs)
                                     (fold (store_concept docId) cs g2)))))"

text \<open>\<open>s.replace(/\s+/g, ' ')\<close>\<close>

fun join :: "string \<Rightarrow> string list \<Rightarrow> string" where
  "join sep [] = []"
| "join sep [p] = p"
| "join sep (p # q # ps) = p @ sep @ join sep (q # ps)"

definition collapse_ws :: "string \<Rightarrow> string" where
  "collapse_ws s = join '' '' (split_ws s)"

text \<open>
  A page to ingest: its address, the text of its body once scripts, styles and the
  navigation are removed (\<open>None\<close>: the request fails), the base64 text of the address and
  the reading of the clock.
\<close>

record url_source =
  u_url :: string
  u_body :: "string option"
  u_base64 :: string
  u_stamp :: string

definition ingestUrl :: "env \<Rightarrow> url_source \<Rightarrow> bool \<Rightarrow> graph \<Rightarrow> bool \<times> graph" where
  "ingestUrl ev u clear g =
     (case u_body u of
        None \<Rightarrow> (False, g)
      | Some body \<Rightarrow>
          (let content = trim (collapse_ws body) in
           if length content = 0 then (False, g)
           else if int (length content) > maxFileSize ev then (False, g)
           else
             (let g1 = (if clear then clear_graph g else g);
                  cs = extractConcepts (nlp_of ev) content;
                  docId = ''url_'' @ substring 0 10 (u_base64 u) @ ''_'' @ u_stamp u
              in case create_document
                       \<lparr>doc_id = docId, doc_name = u_url u,
                        doc_content = substring 0 1000 content, doc_type = ''url'',
                        doc_size = int (length content)\<rparr> g1 of
                   None \<Rightarrow> (False, g1)
                 | Some g2 \<Rightarrow>
                     (True, createConceptRelationships (map as_candidate cs)
                              (fold (store_concept docId) cs g2)))))"

text \<open>
  The action of the \<open>ingest\<close> command: the files, then the pages; the state is the number
  of items processed, the flag \<open>isFirstItem\<close> and the graph.
\<close>

fun ingest_each ::
  "('s \<Rightarrow> bool \<Rightarrow> graph \<Rightarrow> bool \<times> graph) \<Rightarrow> bool \<Rightarrow> 's list \<Rightarrow> nat \<times> bool \<times> graph
     \<Rightarrow> nat \<times> bool \<times> graph" where
  "ingest_each ing clear [] st = st"
| "ingest_each ing clear (s # ss) (totalProcessed, isFirstItem, g) =
     (case ing s (clear \<and> isFirstItem) g of
        (success, g') \<Rightarrow>
          ingest_each ing clear ss
            (if success then totalProcessed + 1 else totalProcessed, False, g'))"

definition ingest_action ::
  "env \<Rightarrow> file_source list \<Rightarrow> url_source list \<Rightarrow> bool \<Rightarrow> graph \<Rightarrow> nat \<times> bool \<times> graph" where
  "ingest_action ev files urls clear g =
     ingest_each (ingestUrl ev) clear urls
       (ingest_each (ingestFile ev) clear files (0, True, g))"

definition ingest_action_legacy ::
  "env \<Rightarrow> file_source list \<Rightarrow> url_source list \<Rightarrow> bool \<Rightarrow> graph \<Rightarrow> nat \<times> bool \<times> graph" where
  "ingest_action_legacy ev files urls clear g =
     ingest_each (ingestUrl ev) clear urls
       (ingest_each (ingestFile_legacy ev) clear files (0, True, g))"

subsection \<open>What the store operations change\<close>

named_theorems frame

lemma frame_clear [frame]:
  "documents (clear_graph g) = []" "concepts (clear_graph g) = []"
  "entities (clear_graph g) = []" "contains (clear_graph g) = []"
  "related (clear_graph g) = []" "entity_rels (clear_graph g) = []"
  "clears (clear_graph g) = clears g + 1"
  by (simp_all add: clear_graph_def)

lemma frame_create_document [frame]:
  assumes "create_document d g = Some g'"
  shows "documents g' = documents g @ [d]" "concepts g' = concepts g"
    "entities g' = entities g" "contains g' = contains g" "related g' = related g"
    "entity_rels g' = entity_rels g" "clears g' = clears g"
  using assms by (auto simp: create_document_def split: if_splits)

lemma frame_merge_concept [frame]:
  "documents (merge_concept nm f g) = documents g"
  "entities (merge_concept nm f g) = entities g"
  "contains (merge_concept nm f g) = contains g"
  "related (merge_concept nm f g) = related g"
  "entity_rels (merge_concept nm f g) = entity_rels g"
  "clears (merge_concept nm f g) = clears g"
  by (simp_all add: merge_concept_def)

lemma frame_merge_entity [frame]:
  "documents (merge_entity nm ty de f g) = documents g"
  "concepts (merge_entity nm ty de f g) = concepts g"
  "contains (merge_entity nm ty de f g) = contains g"
  "related (merge_entity nm ty de f g) = related g"
  "entity_rels (merge_entity nm ty de f g) = entity_rels g"
  "clears (merge_entity nm ty de f g) = clears g"
  by (simp_all add: merge_entity_def)

lemma frame_create_contains [frame]:
  "documents (create_contains d l nm w g) = documents g"
  "concepts (create_contains d l nm w g) = concepts g"
  "entities (create_contains d l nm w g) = entities g"
  "related (create_contains d l nm w g) = related g"
  "entity_rels (create_contains d l nm w g) = entity_rels g"
  "clears (create_contains d l nm w g) = clears g"
  by (simp_all add: create_contains_def)

lemma frame_merge_related [frame]:
  "documents (merge_related a b w g) = documents g"
  "concepts (merge_related a b w g) = concepts g"
  "entities (merge_related a b w g) = entities g"
  "contains (merge_related a b w g) = contains g"
  "entity_rels (merge_related a b w g) = entity_rels g"
  "clears (merge_related a b w g) = clears g"
  by (simp_all add: merge_related_def)

lemma frame_merge_entity_rel [frame]:
  "documents (merge_entity_rel r g) = documents g"
  "concepts (merge_entity_rel r g) = concepts g"
  "entities (merge_entity_rel r g) = entities g"
  "contains (merge_entity_rel r g) = contains g"
  "related (merge_entity_rel r g) = related g"
  "clears (merge_entity_rel r g) = clears g"
  by (simp_all add: merge_entity_rel_def Let_def)

lemma frame_fold_merge_related [frame]:
  "documents (fold (\<lambda>d. merge_related (a d) (b d) (w d)) ds g) = documents g"
  "concepts (fold (\<lambda>d. merge_related (a d) (b d) (w d)) ds g) = concepts g"
  "entities (fold (\<lambda>d. merge_related (a d) (b d) (w d)) ds g) = entities g"
  "contains (fold (\<lambda>d. merge_related (a d) (b d) (w d)) ds g) = contains g"
  "entity_rels (fold (\<lambda>d. merge_related (a d) (b d) (w d)) ds g) = entity_rels g"
  "clears (fold (\<lambda>d. merge_related (a d) (b d) (w d)) ds g) = clears g"
  by (induction ds arbitrary: g; simp add: frame)+

lemma frame_createConceptRelationships [frame]:
  "documents (createConceptRelationships cs g) = documents g"
  "concepts (createConceptRelationships cs g) = concepts g"
  "entities (createConceptRelationships cs g) = entities g"
  "contains (createConceptRelationships cs g) = contains g"
  "entity_rels (createConceptRelationships cs g) = entity_rels g"
  "clears (createConceptRelationships cs g) = clears g"
  by (induction cs arbitrary: g; simp add: frame)+

lemma frame_createEntityRelationships [frame]:
  "documents (createEntityRelationships rs d g) = documents g"
  "concepts (createEntityRelationships rs d g) = concepts g"
  "entities (createEntityRelationships rs d g) = entities g"
  "contains (createEntityRelationships rs d g) = contains g"
  "related (createEntityRelationships rs d g) = related g"
  "clears (createEntityRelationships rs d g) = clears g"
  unfolding createEntityRelationships_def
  by (induction rs arbitrary: g; simp add: frame)+

lemma frame_store_concept [frame]:
  "documents (store_concept d c g) = documents g"
  "entities (store_concept d c g) = entities g"
  "related (store_concept d c g) = related g"
  "entity_rels (store_concept d c g) = entity_rels g"
  "clears (store_concept d c g) = clears g"
  by (simp_all add: store_concept_def frame)

lemma frame_store_entity [frame]:
  "documents (store_entity d c g) = documents g"
  "concepts (store_entity d c g) = concepts g"
  "related (store_entity d c g) = related g"
  "entity_rels (store_entity d c g) = entity_rels g"
  "clears (store_entity d c g) = clears g"
  by (simp_all add: store_entity_def frame Let_def)

lemma frame_fold_store_concept [frame]:
  "documents (fold (store_concept d) cs g) = documents g"
  "entities (fold (store_concept d) cs g) = entities g"
  "related (fold (store_concept d) cs g) = related g"
  "entity_rels (fold (store_concept d) cs g) = entity_rels g"
  "clears (fold (store_concept d) cs g) = clears g"
  by (induction cs arbitrary: g; simp add: frame)+

lemma frame_fold_store_entity [frame]:
  "documents (fold (store_entity d) cs g) = documents g"
  "concepts (fold (store_entity d) cs g) = concepts g"
  "related (fold (store_entity d) cs g) = related g"
  "entity_rels (fold (store_entity d) cs g) = entity_rels g"
  "clears (fold (store_entity d) cs g) = clears g"
  by (induction cs arbitrary: g; simp add: frame)+

subsection \<open>Concept frequencies\<close>

text \<open>The frequency of a concept after a merge with the frequency \<open>f\<close>: \<open>f\<close> for a new
  node, the sum otherwise.\<close>

definition merged :: "jsval option \<Rightarrow> jsval \<Rightarrow> jsval" where
  "merged old f = (case old of None \<Rightarrow> f | Some k \<Rightarrow> cy_add k f)"

lemma merged_counts:
  "merged None (Count f) = Count f"
  "merged (Some (Count k)) (Count f) = Count (k + f)"
  by (simp_all add: merged_def)

lemma find_snoc:
  "find P (xs @ [y]) = (case find P xs of None \<Rightarrow> (if P y then Some y else None) | Some z \<Rightarrow> Some z)"
  by (induction xs) auto

lemma find_bumped:
  "map_option frequency
     (find (\<lambda>c. name c = x)
        (map (\<lambda>c. if name c = nm then c\<lparr>frequency := cy_add (frequency c) f\<rparr> else c) cs)) =
   (if x = nm then map_option (\<lambda>k. cy_add k f) (map_option frequency (find (\<lambda>c. name c = x) cs))
    else map_option frequency (find (\<lambda>c. name c = x) cs))"
  by (induction cs) auto

lemma names_bumped:
  "map (name \<circ> (\<lambda>c. if name c = nm then c\<lparr>frequency := cy_add (frequency c) f\<rparr> else c)) cs
     = map name cs"
  by (induction cs) auto

lemma concept_frequency_None: "concept_frequency g x = None \<longleftrightarrow> x \<notin> name ` set (concepts g)"
  by (auto simp: concept_frequency_def find_None_iff)

lemma concept_frequency_merge:
  "concept_frequency (merge_concept nm f g) x =
     (if x = nm then Some (merged (concept_frequency g nm) f) else concept_frequency g x)"
proof (cases "nm \<in> name ` set (concepts g)")
  case True
  then obtain k where k: "concept_frequency g nm = Some k"
    using concept_frequency_None [of g nm] by (cases "concept_frequency g nm") auto
  have "concepts (merge_concept nm f g) =
      map (\<lambda>c. if name c = nm then c\<lparr>frequency := cy_add (frequency c) f\<rparr> else c) (concepts g)"
    using True by (simp add: merge_concept_def)
  then have "concept_frequency (merge_concept nm f g) x =
      (if x = nm then map_option (\<lambda>k. cy_add k f) (concept_frequency g x) else concept_frequency g x)"
    by (simp add: concept_frequency_def find_bumped)
  with k show ?thesis by (auto simp: merged_def)
next
  case False
  then have n: "find (\<lambda>c. name c = nm) (concepts g) = None"
    by (auto simp: find_None_iff)
  have c: "concepts (merge_concept nm f g) = concepts g @ [\<lparr>name = nm, frequency = f\<rparr>]"
    using False by (simp add: merge_concept_def)
  show ?thesis
  proof (cases "x = nm")
    case True
    with n c show ?thesis by (simp add: concept_frequency_def find_snoc merged_def)
  next
    case False
    with c show ?thesis
      by (cases "find (\<lambda>c. name c = x) (concepts g)")
        (simp_all add: concept_frequency_def find_snoc)
  qed
qed

lemma names_merge_concept:
  "name ` set (concepts (merge_concept nm f g)) = insert nm (name ` set (concepts g))"
proof -
  have "map name (concepts (merge_concept nm f g)) =
      (if nm \<in> name ` set (concepts g) then map name (concepts g)
       else map name (concepts g) @ [nm])"
    by (simp add: merge_concept_def names_bumped)
  then have "set (map name (concepts (merge_concept nm f g))) =
      insert nm (set (map name (concepts g)))"
    by (simp only: set_map set_append split: if_splits) auto
  then show ?thesis by simp
qed

lemma distinct_merge_concept:
  "distinct (map name (concepts g)) \<Longrightarrow> distinct (map name (concepts (merge_concept nm f g)))"
  by (auto simp: merge_concept_def names_bumped)

lemma concept_frequency_contains:
  "concept_frequency (create_contains d l nm w g) x = concept_frequency g x"
  by (simp add: concept_frequency_def frame)

lemma concept_frequency_store:
  "concept_frequency (store_concept d c g) x =
     (if x = name c then Some (merged (concept_frequency g (name c)) (frequency c))
      else concept_frequency g x)"
  by (simp add: store_concept_def concept_frequency_contains concept_frequency_merge)

lemma names_store_concept:
  "name ` set (concepts (store_concept d c g)) = insert (name c) (name ` set (concepts g))"
  by (simp add: store_concept_def frame names_merge_concept)

lemma distinct_store_concept:
  "distinct (map name (concepts g)) \<Longrightarrow> distinct (map name (concepts (store_concept d c g)))"
  by (simp add: store_concept_def frame distinct_merge_concept)

lemma names_fold_store:
  "name ` set (concepts (fold (store_concept d) cs g)) =
     name ` set (concepts g) \<union> name ` set cs"
  by (induction cs arbitrary: g) (simp_all add: names_store_concept)

lemma distinct_fold_store:
  "distinct (map name (concepts g)) \<Longrightarrow>
     distinct (map name (concepts (fold (store_concept d) cs g)))"
  by (induction cs arbitrary: g) (auto simp: distinct_store_concept)

text \<open>A run of merges of concepts with pairwise different names merges each of them
  once.\<close>

lemma concept_frequency_fold_other:
  "x \<notin> name ` set cs \<Longrightarrow>
   concept_frequency (fold (store_concept d) cs g) x = concept_frequency g x"
  by (induction cs arbitrary: g) (simp_all add: concept_frequency_store)

lemma concept_frequency_fold_store:
  assumes "distinct (map name cs)" and "c \<in> set cs"
  shows "concept_frequency (fold (store_concept d) cs g) (name c)
     = Some (merged (concept_frequency g (name c)) (frequency c))"
  using assms
proof (induction cs arbitrary: g)
  case Nil
  then show ?case by simp
next
  case (Cons a cs)
  show ?case
  proof (cases "a = c")
    case True
    have "name c \<notin> name ` set cs" using Cons.prems(1) True by auto
    then have "concept_frequency (fold (store_concept d) cs (store_concept d c g)) (name c)
        = concept_frequency (store_concept d c g) (name c)"
      by (rule concept_frequency_fold_other)
    then show ?thesis using True by (simp add: concept_frequency_store)
  next
    case False
    then have c: "c \<in> set cs" using Cons.prems(2) by simp
    then have ne: "name a \<noteq> name c" using Cons.prems(1) by auto
    have "concept_frequency (fold (store_concept d) cs (store_concept d a g)) (name c)
        = Some (merged (concept_frequency (store_concept d a g) (name c)) (frequency c))"
      using Cons.IH [of "store_concept d a g"] Cons.prems(1) c by simp
    then show ?thesis using ne by (simp add: concept_frequency_store)
  qed
qed

subsection \<open>RELATED\_TO edges\<close>

definition same_pair :: "string \<Rightarrow> string \<Rightarrow> string \<Rightarrow> string \<Rightarrow> bool" where
  "same_pair x y a b = ((x = a \<and> y = b) \<or> (x = b \<and> y = a))"

text \<open>The weight of the edge between two concepts, when there is one.\<close>

definition related_weight :: "graph \<Rightarrow> string \<Rightarrow> string \<Rightarrow> jsnum option" where
  "related_weight g a b = (case edges_between g a b of [] \<Rightarrow> None | e # es \<Rightarrow> Some (r_weight e))"

definition one_edge :: "graph \<Rightarrow> bool" where
  "one_edge g = (\<forall>a b. length (edges_between g a b) \<le> 1)"

definition add_weight :: "jsnum option \<Rightarrow> jsnum \<Rightarrow> jsnum option" where
  "add_weight v w = Some (case v of None \<Rightarrow> w | Some u \<Rightarrow> js_add u w)"

lemma links_sym: "links a b = links b a"
  by (auto simp: links_def fun_eq_iff)

lemma edges_between_sym: "edges_between g a b = edges_between g b a"
  by (simp add: edges_between_def links_sym [of a b])

lemma related_weight_sym: "related_weight g a b = related_weight g b a"
  by (simp add: related_weight_def edges_between_sym [of g a b])

lemma links_same_pair: "links x y e \<Longrightarrow> links a b e \<longleftrightarrow> same_pair x y a b"
  by (auto simp: links_def same_pair_def)

lemma same_pair_links: "same_pair x y a b \<Longrightarrow> links x y = links a b"
  by (auto simp: links_def same_pair_def fun_eq_iff)

lemma filter_links_bumped:
  "filter (links x y) (map (\<lambda>e. if links a b e then e\<lparr>r_weight := js_add (r_weight e) w\<rparr> else e) es)
   = (if same_pair x y a b
      then map (\<lambda>e. e\<lparr>r_weight := js_add (r_weight e) w\<rparr>) (filter (links a b) es)
      else filter (links x y) es)"
proof (induction es)
  case Nil
  then show ?case by simp
next
  case (Cons e es)
  have l: "links x y (e\<lparr>r_weight := v\<rparr>) = links x y e" for v
    by (simp add: links_def)
  show ?case
  proof (cases "same_pair x y a b")
    case True
    then have "links x y = links a b" by (rule same_pair_links)
    with True Cons.IH show ?thesis by (simp add: links_def)
  next
    case False
    then have "\<not> (links x y e \<and> links a b e)" using links_same_pair by blast
    with False Cons.IH show ?thesis by (auto simp: l)
  qed
qed

lemma edges_between_merge:
  "edges_between (merge_related a b w g) x y =
     (if node_exists ConceptL a g \<and> node_exists ConceptL b g \<and> same_pair x y a b
      then (if edges_between g a b = [] then [\<lparr>r_from = a, r_to = b, r_weight = w\<rparr>]
            else map (\<lambda>e. e\<lparr>r_weight := js_add (r_weight e) w\<rparr>) (edges_between g a b))
      else edges_between g x y)"
proof (cases "node_exists ConceptL a g \<and> node_exists ConceptL b g")
  case False
  then show ?thesis by (auto simp: merge_related_def)
next
  case nodes: True
  show ?thesis
  proof (cases "list_ex (links a b) (related g)")
    case True
    then have ne: "edges_between g a b \<noteq> []"
      by (auto simp: edges_between_def list_ex_iff filter_empty_conv)
    from True nodes have "related (merge_related a b w g) =
        map (\<lambda>e. if links a b e then e\<lparr>r_weight := js_add (r_weight e) w\<rparr> else e) (related g)"
      by (simp add: merge_related_def)
    then show ?thesis using ne nodes
      by (simp add: edges_between_def filter_links_bumped)
  next
    case False
    then have e: "edges_between g a b = []"
      by (auto simp: edges_between_def list_ex_iff filter_empty_conv)
    from False nodes have r: "related (merge_related a b w g) =
        related g @ [\<lparr>r_from = a, r_to = b, r_weight = w\<rparr>]"
      by (simp add: merge_related_def)
    show ?thesis
    proof (cases "same_pair x y a b")
      case True
      then have "links x y = links a b" by (rule same_pair_links)
      then show ?thesis using True e nodes r
        by (simp add: edges_between_def links_def)
    next
      case False
      then have "\<not> links x y \<lparr>r_from = a, r_to = b, r_weight = w\<rparr>"
        by (auto simp: links_def same_pair_def)
      then show ?thesis using False r by (simp add: edges_between_def)
    qed
  qed
qed

lemma length_edges_between_merge:
  "length (edges_between (merge_related a b w g) x y) =
     (if node_exists ConceptL a g \<and> node_exists ConceptL b g \<and> same_pair x y a b
        \<and> edges_between g a b = []
      then 1 else length (edges_between g x y))"
proof -
  have "same_pair x y a b \<Longrightarrow> edges_between g x y = edges_between g a b"
    by (simp add: edges_between_def same_pair_links)
  then show ?thesis by (auto simp: edges_between_merge)
qed

lemma one_edge_merge: "one_edge g \<Longrightarrow> one_edge (merge_related a b w g)"
  by (simp add: one_edge_def length_edges_between_merge)

lemma related_weight_merge:
  "related_weight (merge_related a b w g) x y =
     (if node_exists ConceptL a g \<and> node_exists ConceptL b g \<and> same_pair x y a b
      then add_weight (related_weight g x y) w
      else related_weight g x y)"
proof -
  have "same_pair x y a b \<Longrightarrow> edges_between g x y = edges_between g a b"
    by (simp add: edges_between_def same_pair_links)
  then show ?thesis
    by (auto simp: related_weight_def edges_between_merge add_weight_def split: list.splits)
qed

text \<open>A run of merges, one per triple of two names and a weight.\<close>

definition apply_pairs :: "(string \<times> string \<times> jsnum) list \<Rightarrow> graph \<Rightarrow> graph" where
  "apply_pairs ps g = fold (\<lambda>(a, b, w). merge_related a b w) ps g"

fun pairs_of :: "('a \<Rightarrow> string) \<Rightarrow> ('a \<Rightarrow> 'a \<Rightarrow> jsnum) \<Rightarrow> 'a list \<Rightarrow> (string \<times> string \<times> jsnum) list" where
  "pairs_of nm wt [] = []"
| "pairs_of nm wt (c # cs) = map (\<lambda>d. (nm c, nm d, wt c d)) cs @ pairs_of nm wt cs"

lemma apply_pairs_append: "apply_pairs (ps @ qs) g = apply_pairs qs (apply_pairs ps g)"
  by (simp add: apply_pairs_def)

lemma createConceptRelationships_pairs:
  "createConceptRelationships cs g = apply_pairs (pairs_of c_name weight_of cs) g"
proof (induction cs arbitrary: g)
  case Nil
  then show ?case by (simp add: apply_pairs_def)
next
  case (Cons c cs)
  have "fold (\<lambda>d. merge_related (c_name c) (c_name d) (weight_of c d)) cs g
      = apply_pairs (map (\<lambda>d. (c_name c, c_name d, weight_of c d)) cs) g"
    by (simp add: apply_pairs_def fold_map comp_def)
  then show ?case by (simp add: Cons.IH apply_pairs_append)
qed

lemma concepts_apply_pairs: "concepts (apply_pairs ps g) = concepts g"
  unfolding apply_pairs_def
  by (induction ps arbitrary: g) (auto simp: frame)

lemma one_edge_apply_pairs: "one_edge g \<Longrightarrow> one_edge (apply_pairs ps g)"
  unfolding apply_pairs_def
  by (induction ps arbitrary: g) (auto simp: one_edge_merge)

definition hits :: "string \<Rightarrow> string \<Rightarrow> string \<times> string \<times> jsnum \<Rightarrow> bool" where
  "hits x y p = same_pair x y (fst p) (fst (snd p))"

lemma hits_triple: "hits x y (a, b, w) = same_pair x y a b"
  by (simp add: hits_def)

lemma related_weight_apply_pairs:
  assumes "\<forall>p \<in> set ps. node_exists ConceptL (fst p) g \<and> node_exists ConceptL (fst (snd p)) g"
  shows "related_weight (apply_pairs ps g) x y =
     foldl add_weight (related_weight g x y) (map (\<lambda>p. snd (snd p)) (filter (hits x y) ps))"
  using assms
proof (induction ps arbitrary: g)
  case Nil
  then show ?case by (simp add: apply_pairs_def)
next
  case (Cons p ps)
  obtain a b w where p: "p = (a, b, w)" by (cases p) auto
  have n: "node_exists ConceptL a g" "node_exists ConceptL b g"
    using Cons.prems p by auto
  have "\<forall>q \<in> set ps. node_exists ConceptL (fst q) (merge_related a b w g)
      \<and> node_exists ConceptL (fst (snd q)) (merge_related a b w g)"
    using Cons.prems by (simp add: node_exists_def frame)
  from Cons.IH [OF this]
  have "related_weight (apply_pairs ps (merge_related a b w g)) x y =
      foldl add_weight (related_weight (merge_related a b w g) x y)
        (map (\<lambda>p. snd (snd p)) (filter (hits x y) ps))" .
  moreover have "apply_pairs (p # ps) g = apply_pairs ps (merge_related a b w g)"
    by (simp add: apply_pairs_def p)
  ultimately show ?case using n
    by (simp add: related_weight_merge p hits_triple)
qed

lemma pairs_of_names:
  "p \<in> set (pairs_of nm wt cs) \<Longrightarrow> fst p \<in> nm ` set cs \<and> fst (snd p) \<in> nm ` set cs"
  by (induction cs) auto

lemma hits_pairs_none:
  "x \<notin> nm ` set cs \<or> y \<notin> nm ` set cs \<Longrightarrow> filter (hits x y) (pairs_of nm wt cs) = []"
proof -
  assume a: "x \<notin> nm ` set cs \<or> y \<notin> nm ` set cs"
  have "\<not> hits x y p" if "p \<in> set (pairs_of nm wt cs)" for p
    using pairs_of_names [OF that] a by (auto simp: hits_def same_pair_def)
  then show ?thesis by (simp add: filter_empty_conv)
qed

lemma hits_row_none:
  "a \<noteq> x \<Longrightarrow> a \<noteq> y \<Longrightarrow> filter (hits x y) (map (\<lambda>d. (a, nm d, wt d)) cs) = []"
  by (simp add: filter_empty_conv hits_def same_pair_def)

lemma hits_row_one:
  assumes "distinct (map nm cs)" and "d \<in> set cs" and "a \<notin> nm ` set cs"
  shows "filter (hits a (nm d)) (map (\<lambda>d. (a, nm d, wt d)) cs) = [(a, nm d, wt d)]"
  using assms
proof (induction cs)
  case Nil
  then show ?case by simp
next
  case (Cons e cs)
  show ?case
  proof (cases "e = d")
    case True
    have "\<not> hits a (nm d) (a, nm d', wt d')" if "d' \<in> set cs" for d'
    proof -
      have "nm d \<notin> nm ` set cs" using Cons.prems(1) True by simp
      then have "nm d' \<noteq> nm d" using that by (metis imageI)
      moreover have "nm d' \<noteq> a" using Cons.prems(3) that by auto
      ultimately show ?thesis by (auto simp: hits_triple same_pair_def)
    qed
    then have "filter (hits a (nm d)) (map (\<lambda>d. (a, nm d, wt d)) cs) = []"
      by (auto simp: filter_empty_conv)
    moreover have "hits a (nm d) (a, nm d, wt d)" by (simp add: hits_triple same_pair_def)
    ultimately show ?thesis using True by simp
  next
    case False
    then have d: "d \<in> set cs" using Cons.prems(2) by simp
    then have "nm e \<noteq> nm d" using Cons.prems(1) by auto
    moreover have "nm e \<noteq> a" using Cons.prems(3) by auto
    ultimately have "\<not> hits a (nm d) (a, nm e, wt e)"
      by (auto simp: hits_triple same_pair_def)
    moreover have "filter (hits a (nm d)) (map (\<lambda>d. (a, nm d, wt d)) cs) = [(a, nm d, wt d)]"
      using Cons.IH Cons.prems d by simp
    ultimately show ?thesis by simp
  qed
qed

lemma hits_sym: "hits x y = hits y x"
  by (auto simp: hits_def same_pair_def fun_eq_iff)

lemma hits_pairs_one:
  assumes "distinct (map nm cs)" and "c \<in> set cs" and "d \<in> set cs" and "nm c \<noteq> nm d"
    and sym: "\<And>u v. wt u v = wt v u"
  shows "map (\<lambda>p. snd (snd p)) (filter (hits (nm c) (nm d)) (pairs_of nm wt cs)) = [wt c d]"
  using assms(1-4)
proof (induction cs)
  case Nil
  then show ?case by simp
next
  case (Cons e cs)
  from Cons.prems(1) have dist: "distinct (map nm cs)" and fresh: "nm e \<notin> nm ` set cs"
    by auto
  have rest_none: "filter (hits x y) (pairs_of nm wt cs) = []" if "x = nm e \<or> y = nm e" for x y
    using hits_pairs_none [of x nm cs y wt] fresh that by auto
  consider (c) "e = c" | (d) "e = d" | (other) "e \<noteq> c" "e \<noteq> d" by blast
  then show ?case
  proof cases
    case c
    then have "d \<in> set cs" using Cons.prems(3,4) by auto
    from hits_row_one [OF dist this fresh, of "wt e"]
    have "filter (hits (nm e) (nm d)) (map (\<lambda>d. (nm e, nm d, wt e d)) cs) = [(nm e, nm d, wt e d)]" .
    with c rest_none [of "nm c" "nm d"] show ?thesis by simp
  next
    case d
    then have "c \<in> set cs" using Cons.prems(2,4) by auto
    from hits_row_one [OF dist this fresh, of "wt e"]
    have "filter (hits (nm e) (nm c)) (map (\<lambda>d. (nm e, nm d, wt e d)) cs) = [(nm e, nm c, wt e c)]" .
    then have "filter (hits (nm c) (nm e)) (map (\<lambda>d. (nm e, nm d, wt e d)) cs) = [(nm e, nm c, wt e c)]"
      by (simp add: hits_sym [of "nm c" "nm e"])
    with d rest_none [of "nm c" "nm d"] show ?thesis by (simp add: sym [of d c])
  next
    case other
    then have in_cs: "c \<in> set cs" "d \<in> set cs" using Cons.prems(2,3) by auto
    then have "nm e \<noteq> nm c" "nm e \<noteq> nm d" using fresh by auto
    then have "filter (hits (nm c) (nm d)) (map (\<lambda>d. (nm e, nm d, wt e d)) cs) = []"
      by (rule hits_row_none)
    moreover have "map (\<lambda>p. snd (snd p)) (filter (hits (nm c) (nm d)) (pairs_of nm wt cs)) = [wt c d]"
      using Cons.IH dist in_cs Cons.prems(4) by simp
    ultimately show ?thesis by simp
  qed
qed

text \<open>Numeric weights only grow under a run of merges with numeric weights.\<close>

lemma add_weight_num: "add_weight (Some (Num k)) (Num j) = Some (Num (k + j))"
  by (simp add: add_weight_def)

lemma c_name_as_candidate: "c_name (as_candidate c) = name c"
  by (simp add: as_candidate_def)

lemma foldl_add_weight_mono:
  assumes "\<forall>w \<in> set ws. \<exists>k. w = Num k"
  shows "\<exists>k'. k \<le> k' \<and> foldl add_weight (Some (Num k)) ws = Some (Num k')"
  using assms
proof (induction ws arbitrary: k)
  case Nil
  then show ?case by simp
next
  case (Cons w ws)
  then obtain j where j: "w = Num j" by auto
  from Cons.IH [of "k + j"] Cons.prems
  obtain k' where "k + j \<le> k'" "foldl add_weight (Some (Num (k + j))) ws = Some (Num k')"
    by auto
  then show ?case by (auto simp: j add_weight_num)
qed

lemma weight_of_concepts:
  "frequency c = Count a \<Longrightarrow> frequency d = Count b \<Longrightarrow>
   weight_of (as_candidate c) (as_candidate d) = Num (min a b)"
  by (simp add: weight_of_def as_candidate_def)

lemma weight_of_sym: "weight_of u v = weight_of v u"
  by (auto simp: weight_of_def min.commute split: option.splits jsval.splits)

lemma pairs_of_concepts_numeric:
  assumes "list_all (\<lambda>c. is_count (frequency c)) cs"
    and "p \<in> set (pairs_of c_name weight_of (map as_candidate cs))"
  shows "\<exists>k. snd (snd p) = Num k"
  using assms
proof (induction cs)
  case Nil
  then show ?case by simp
next
  case (Cons c cs)
  obtain a where a: "frequency c = Count a"
    using Cons.prems(1) by (cases "frequency c") auto
  have "\<exists>k. weight_of (as_candidate c) (as_candidate d) = Num k" if "d \<in> set cs" for d
  proof -
    have "is_count (frequency d)" using Cons.prems(1) that by (simp add: list_all_iff)
    then obtain b where "frequency d = Count b" by (cases "frequency d") auto
    with a show ?thesis by (simp add: weight_of_concepts)
  qed
  then show ?case using Cons by auto
qed

text \<open>The relationships of one document, once its concepts are nodes of the graph.\<close>

lemma related_after_concepts:
  assumes nodes: "name ` set cs \<subseteq> name ` set (concepts g)"
    and dist: "distinct (map name cs)"
  shows
    "one_edge g \<Longrightarrow> one_edge (createConceptRelationships (map as_candidate cs) g)"
    "c \<in> set cs \<Longrightarrow> d \<in> set cs \<Longrightarrow> name c \<noteq> name d \<Longrightarrow>
       related_weight (createConceptRelationships (map as_candidate cs) g) (name c) (name d)
         = add_weight (related_weight g (name c) (name d))
             (weight_of (as_candidate c) (as_candidate d))"
    "list_all (\<lambda>c. is_count (frequency c)) cs \<Longrightarrow> related_weight g x y = Some (Num k) \<Longrightarrow>
       \<exists>k'. k \<le> k' \<and>
         related_weight (createConceptRelationships (map as_candidate cs) g) x y = Some (Num k')"
proof -
  let ?ps = "pairs_of c_name weight_of (map as_candidate cs)"
  have g': "createConceptRelationships (map as_candidate cs) g = apply_pairs ?ps g"
    by (rule createConceptRelationships_pairs)
  have names: "c_name ` set (map as_candidate cs) = name ` set cs"
    by (auto simp: c_name_as_candidate image_iff)
  have ex: "\<forall>p \<in> set ?ps. node_exists ConceptL (fst p) g \<and> node_exists ConceptL (fst (snd p)) g"
    using pairs_of_names [of _ c_name weight_of "map as_candidate cs"] nodes names
    by (auto simp: node_exists_def)
  note rw = related_weight_apply_pairs [OF ex]
  show "one_edge g \<Longrightarrow> one_edge (createConceptRelationships (map as_candidate cs) g)"
    by (simp add: g' one_edge_apply_pairs)
  have dist': "distinct (map c_name (map as_candidate cs))"
    using dist by (simp add: comp_def c_name_as_candidate)
  show "related_weight (createConceptRelationships (map as_candidate cs) g) (name c) (name d)
         = add_weight (related_weight g (name c) (name d))
             (weight_of (as_candidate c) (as_candidate d))"
    if "c \<in> set cs" "d \<in> set cs" "name c \<noteq> name d"
  proof -
    have "map (\<lambda>p. snd (snd p))
        (filter (hits (c_name (as_candidate c)) (c_name (as_candidate d))) ?ps)
        = [weight_of (as_candidate c) (as_candidate d)]"
      using that by (intro hits_pairs_one [OF dist']) (auto simp: c_name_as_candidate weight_of_sym)
    then show ?thesis
      by (simp add: g' rw c_name_as_candidate)
  qed
  show "\<exists>k'. k \<le> k' \<and>
         related_weight (createConceptRelationships (map as_candidate cs) g) x y = Some (Num k')"
    if "list_all (\<lambda>c. is_count (frequency c)) cs" "related_weight g x y = Some (Num k)"
  proof -
    have "\<forall>w \<in> set (map (\<lambda>p. snd (snd p)) (filter (hits x y) ?ps)). \<exists>k. w = Num k"
      using pairs_of_concepts_numeric [OF that(1)] by auto
    from foldl_add_weight_mono [OF this, of k] show ?thesis
      by (simp add: g' rw that)
  qed
qed

section \<open>The command-line variant with a size budget (class KnowledgeGraphCLI)\<close>

subsection \<open>Concept extraction\<close>

definition stopWords :: "string list" where
  "stopWords =
   [''this'', ''that'', ''with'', ''have'', ''will'', ''from'', ''they'', ''been'',
      ''said'', ''each'', ''which'', ''their'', ''time'', ''about'', ''would'',
      ''there'', ''could'', ''other'', ''more'', ''very'', ''what'', ''know'',
      ''just'', ''into'', ''over'', ''think'', ''also'', ''your'', ''work'', ''life'',
      ''only'', ''can'', ''still'', ''should'', ''after'', ''being'', ''now'',
      ''made'', ''before'', ''here'', ''through'', ''when'', ''where'', ''how'',
      ''all'', ''any'', ''may'', ''say'', ''get'', ''has'', ''had'', ''his'', ''her'',
      ''him'', ''my'', ''me'', ''we'', ''our'', ''out'', ''day'', ''go'', ''he'',
      ''she'', ''it'', ''of'', ''to'', ''and'', ''a'', ''in'', ''is'', ''it'', ''you'',
      ''that'', ''he'', ''was'', ''for'', ''on'', ''are'', ''as'', ''with'', ''his'',
      ''they'', ''i'', ''at'', ''be'', ''or'', ''an'', ''were'', ''by'', ''but'',
      ''not'', ''do'', ''can'', ''if'', ''no'', ''had'', ''my'', ''has'', ''so'',
      ''the'', ''then'', ''than'', ''some'', ''like'', ''who'', ''these'', ''those'',
      ''such'', ''many'', ''most'', ''much'', ''while'', ''since'', ''both'',
      ''either'', ''neither'', ''every'', ''another'', ''same'', ''different'',
      ''new'', ''old'', ''first'', ''last'', ''next'', ''previous'', ''good'', ''bad'',
      ''best'', ''worst'', ''make'', ''way'', ''come'', ''its'', ''now'', ''find'',
      ''long'', ''down'', ''day'', ''did'', ''get'', ''come'', ''made'', ''may'',
      ''part'']"

text \<open>\<open>s.toLowerCase().replace(/[^\w\s]/g, ' ')\<close>\<close>

definition clean :: "string \<Rightarrow> string" where
  "clean s = map (\<lambda>c. if word_char c \<or> is_space c then c else CHR '' '') (toLowerCase s)"

text \<open>The two-word phrases of a sentence: a window of two consecutive words, kept when
  it is longer than 8 characters, neither word is a stop word and it does not start with
  a digit.\<close>

fun phrases_of :: "string list \<Rightarrow> string list" where
  "phrases_of (w1 # w2 # ws) =
     (let phrase = w1 @ '' '' @ w2 in
      (if length phrase > 8 \<and> w1 \<notin> set stopWords \<and> w2 \<notin> set stopWords
          \<and> \<not> (phrase \<noteq> [] \<and> is_digit (hd phrase))
       then [phrase] else [])
      @ phrases_of (w2 # ws))"
| "phrases_of ws = []"

definition cli_word_frequency :: "string \<Rightarrow> (string \<times> jsval) list" where
  "cli_word_frequency content =
     count_words
       (filter (\<lambda>word. word \<notin> set stopWords)
          (filter (\<lambda>word. length word > 3) (split_ws (clean content))))"

definition cli_phrase_frequency :: "string \<Rightarrow> (string \<times> jsval) list" where
  "cli_phrase_frequency content =
     count_words
       (concat (map (\<lambda>sentence. phrases_of (split_ws (clean sentence)))
                    (split_sentences content)))"

text \<open>\<open>count >= 2\<close>, false for a text that spells no number. The entries that pass it have
  counts, and the sort with \<open>b - a\<close> is the stable sort by descending count.\<close>

fun ge_two :: "jsval \<Rightarrow> bool" where
  "ge_two (Count k) = (k \<ge> 2)"
| "ge_two (Str s) = False"

definition singleWordConcepts :: "string \<Rightarrow> string list" where
  "singleWordConcepts content =
     map fst (take 15 (sort_key (\<lambda>e. - int (count_of (snd e)))
       (filter (\<lambda>e. ge_two (snd e)) (object_entries (cli_word_frequency content)))))"

definition phraseConcepts :: "string \<Rightarrow> string list" where
  "phraseConcepts content =
     map fst (take 10 (sort_key (\<lambda>e. - int (count_of (snd e)))
       (filter (\<lambda>e. ge_two (snd e)) (object_entries (cli_phrase_frequency content)))))"

definition extractConcepts_cli :: "string \<Rightarrow> string list" where
  "extractConcepts_cli content = singleWordConcepts content @ phraseConcepts content"

subsection \<open>Ingestion\<close>

text \<open>The state of the object: the bytes accepted so far, the ceiling, and the graph
  behind the session.\<close>

record cli =
  totalSize :: int
  maxSize :: int
  store :: graph

datatype cli_error = StatFailed | ReadFailed | FetchFailed | StorageFailed

record summary =
  s_name :: string
  s_concepts :: nat
  s_size :: int
  s_type :: string

definition clearDatabase :: "cli \<Rightarrow> cli" where
  "clearDatabase k = k\<lparr>store := clear_graph (store k), totalSize := 0\<rparr>"

definition checkSizeLimit :: "cli \<Rightarrow> int \<Rightarrow> bool" where
  "checkSizeLimit k newSize = (if totalSize k + newSize > maxSize k then False else True)"

text \<open>The statement run for each concept: the node is merged with a count of one per
  document, and the document is linked to it with weight 1.\<close>

definition cli_store_concept :: "string \<Rightarrow> string \<Rightarrow> graph \<Rightarrow> graph" where
  "cli_store_concept docId concept g =
     create_contains docId ConceptL concept (Count 1) (merge_concept concept (Count 1) g)"

fun cli_relate :: "string list \<Rightarrow> graph \<Rightarrow> graph" where
  "cli_relate [] g = g"
| "cli_relate (c # cs) g = cli_relate cs (fold (\<lambda>d. merge_related c d (Num 1)) cs g)"

text \<open>The document id ends with a reading of the clock and a random suffix: \<open>stamp\<close>.\<close>

definition processDocument ::
  "cli \<Rightarrow> string \<Rightarrow> string \<Rightarrow> string \<Rightarrow> string \<Rightarrow> (cli_error + summary) \<times> cli" where
  "processDocument k nm content ty stamp =
     (let cs = extractConcepts_cli content;
          docId = ty @ ''_'' @ stamp
      in case create_document
               \<lparr>doc_id = docId, doc_name = nm, doc_content = content, doc_type = ty,
                doc_size = int (length content)\<rparr> (store k) of
           None \<Rightarrow> (Inl StorageFailed, k)
         | Some g1 \<Rightarrow>
             (Inr \<lparr>s_name = nm, s_concepts = length cs, s_size = int (length content),
                   s_type = ty\<rparr>,
              k\<lparr>store := cli_relate cs (fold (cli_store_concept docId) cs g1),
                totalSize := totalSize k + int (length content)\<rparr>))"

text \<open>\<open>null\<close> (here \<open>Inr None\<close>) is the rejection by the size check.\<close>

definition ingestFile_cli :: "cli \<Rightarrow> file_source \<Rightarrow> (cli_error + summary option) \<times> cli" where
  "ingestFile_cli k f =
     (case f_stat f of
        None \<Rightarrow> (Inl StatFailed, k)
      | Some sz \<Rightarrow>
          if \<not> checkSizeLimit k sz then (Inr None, k)
          else (case f_read f of
                  None \<Rightarrow> (Inl ReadFailed, k)
                | Some content \<Rightarrow>
                    (case processDocument k (f_name f) content ''file'' (f_stamp f) of
                       (Inl e, k') \<Rightarrow> (Inl e, k')
                     | (Inr s, k') \<Rightarrow> (Inr (Some s), k'))))"

text \<open>For a page, \<open>u_body\<close> is the text once the markup is stripped.\<close>

definition ingestUrl_cli :: "cli \<Rightarrow> url_source \<Rightarrow> (cli_error + summary option) \<times> cli" where
  "ingestUrl_cli k u =
     (case u_body u of
        None \<Rightarrow> (Inl FetchFailed, k)
      | Some content \<Rightarrow>
          if \<not> checkSizeLimit k (int (length content)) then (Inr None, k)
          else (case processDocument k (u_url u) content ''url'' (u_stamp u) of
                  (Inl e, k') \<Rightarrow> (Inl e, k')
                | (Inr s, k') \<Rightarrow> (Inr (Some s), k')))"

subsection \<open>Frequencies after an ingestion\<close>

text \<open>The text of a page as \<open>ingestUrl\<close> reads it, and the document it creates.\<close>

definition page_text :: "url_source \<Rightarrow> string" where
  "page_text u = (case u_body u of None \<Rightarrow> [] | Some body \<Rightarrow> trim (collapse_ws body))"

definition url_document :: "url_source \<Rightarrow> document" where
  "url_document u =
     \<lparr>doc_id = ''url_'' @ substring 0 10 (u_base64 u) @ ''_'' @ u_stamp u, doc_name = u_url u,
      doc_content = substring 0 1000 (page_text u), doc_type = ''url'',
      doc_size = int (length (page_text u))\<rparr>"

lemma ingestUrl_True:
  assumes "ingestUrl ev u clear g = (True, g')"
  shows "\<exists>g2. create_document (url_document u) (if clear then clear_graph g else g) = Some g2
     \<and> g' = createConceptRelationships (map as_candidate (extractConcepts (nlp_of ev) (page_text u)))
            (fold (store_concept (doc_id (url_document u)))
               (extractConcepts (nlp_of ev) (page_text u)) g2)"
  using assms
  by (auto simp: ingestUrl_def page_text_def url_document_def Let_def
      split: option.splits if_splits)

lemma concept_frequency_cong:
  "concepts g = concepts g' \<Longrightarrow> concept_frequency g x = concept_frequency g' x"
  by (simp add: concept_frequency_def)

text \<open>After a page none of whose stems names an inherited member is ingested, every
  concept extracted from it has been merged once, with its extracted frequency; the
  other concepts are as they were.\<close>

lemma ingestUrl_frequency:
  assumes "ingestUrl ev u False g = (True, g')"
  shows "plain_words (stems (nlp_of ev) (page_text u)) \<Longrightarrow>
         c \<in> set (extractConcepts (nlp_of ev) (page_text u)) \<Longrightarrow>
         concept_frequency g' (name c)
           = Some (merged (concept_frequency g (name c)) (frequency c))"
    and "x \<notin> name ` set (extractConcepts (nlp_of ev) (page_text u)) \<Longrightarrow>
         concept_frequency g' x = concept_frequency g x"
    and "name ` set (concepts g') =
           name ` set (concepts g) \<union> name ` set (extractConcepts (nlp_of ev) (page_text u))"
    and "distinct (map name (concepts g)) \<Longrightarrow> distinct (map name (concepts g'))"
proof -
  let ?cs = "extractConcepts (nlp_of ev) (page_text u)"
  from ingestUrl_True [OF assms] obtain g2 where
    g2: "create_document (url_document u) g = Some g2" and
    g': "g' = createConceptRelationships (map as_candidate ?cs)
            (fold (store_concept (doc_id (url_document u))) ?cs g2)"
    by auto
  have c2: "concepts g2 = concepts g" using g2 by (rule frame)
  have c': "concepts g' = concepts (fold (store_concept (doc_id (url_document u))) ?cs g2)"
    by (simp add: g' frame)
  show "concept_frequency g' (name c)
      = Some (merged (concept_frequency g (name c)) (frequency c))"
    if "plain_words (stems (nlp_of ev) (page_text u))" "c \<in> set ?cs"
    using concept_frequency_fold_store [OF extractConcepts_distinct [OF that(1)] that(2),
        of "doc_id (url_document u)" g2]
      concept_frequency_cong [OF c', of "name c"] concept_frequency_cong [OF c2, of "name c"]
    by simp
  show "concept_frequency g' x = concept_frequency g x" if "x \<notin> name ` set ?cs"
    using concept_frequency_fold_other [OF that, of "doc_id (url_document u)" g2]
      concept_frequency_cong [OF c', of x] concept_frequency_cong [OF c2, of x]
    by simp
  show "name ` set (concepts g') = name ` set (concepts g) \<union> name ` set ?cs"
    by (simp add: c' names_fold_store c2)
  show "distinct (map name (concepts g)) \<Longrightarrow> distinct (map name (concepts g'))"
    using distinct_fold_store [of g2 "doc_id (url_document u)" ?cs] by (simp add: c' c2)
qed

text \<open>The command-line variant: every concept of the document counts once. The count
  of a concept is read as 0 when there is no such node.\<close>

definition stored_count :: "graph \<Rightarrow> string \<Rightarrow> nat" where
  "stored_count g nm = (case concept_frequency g nm of Some (Count k) \<Rightarrow> k | _ \<Rightarrow> 0)"

definition counted :: "graph \<Rightarrow> string \<Rightarrow> bool" where
  "counted g nm = (case concept_frequency g nm of Some (Str s) \<Rightarrow> False | _ \<Rightarrow> True)"

lemma concept_frequency_cli_store:
  "concept_frequency (cli_store_concept d c g) x =
     (if x = c then Some (merged (concept_frequency g c) (Count 1)) else concept_frequency g x)"
  by (simp add: cli_store_concept_def concept_frequency_contains concept_frequency_merge)

lemma cli_store_counts:
  assumes "counted g x"
  shows "counted (cli_store_concept d c g) x"
    and "stored_count (cli_store_concept d c g) x = stored_count g x + (if c = x then 1 else 0)"
  using assms
  by (auto simp: counted_def stored_count_def concept_frequency_cli_store merged_def
      split: option.splits jsval.splits)

lemma fold_cli_store_counts:
  assumes "counted g x"
  shows "counted (fold (cli_store_concept d) cs g) x
     \<and> stored_count (fold (cli_store_concept d) cs g) x = stored_count g x + count_list cs x"
  using assms
proof (induction cs arbitrary: g)
  case Nil
  then show ?case by simp
next
  case (Cons c cs)
  from Cons.IH [OF cli_store_counts(1) [OF Cons.prems, of d c]]
    cli_store_counts(2) [OF Cons.prems, of d c]
  show ?case by auto
qed

lemma names_fold_cli_store:
  "name ` set (concepts (fold (cli_store_concept d) cs g)) = name ` set (concepts g) \<union> set cs"
proof (induction cs arbitrary: g)
  case Nil
  then show ?case by simp
next
  case (Cons c cs)
  have "name ` set (concepts (cli_store_concept d c g)) = insert c (name ` set (concepts g))"
    using names_store_concept [of d "\<lparr>name = c, frequency = Count 1\<rparr>" g]
    by (simp add: store_concept_def cli_store_concept_def)
  with Cons.IH show ?case by simp
qed

lemma stored_count_eq:
  "counted g x \<Longrightarrow> x \<in> name ` set (concepts g) \<Longrightarrow>
   concept_frequency g x = Some (Count (stored_count g x))"
  using concept_frequency_None [of g x]
  by (auto simp: counted_def stored_count_def split: option.splits jsval.splits)

lemma frame_cli_relate [frame]:
  "documents (cli_relate cs g) = documents g"
  "concepts (cli_relate cs g) = concepts g"
  "entities (cli_relate cs g) = entities g"
  "contains (cli_relate cs g) = contains g"
  "entity_rels (cli_relate cs g) = entity_rels g"
  "clears (cli_relate cs g) = clears g"
  by (induction cs arbitrary: g; simp add: frame)+

lemma processDocument_Inr:
  assumes "processDocument k nm content ty stamp = (Inr s, k')"
  shows "\<exists>g1. create_document
            \<lparr>doc_id = ty @ ''_'' @ stamp, doc_name = nm, doc_content = content, doc_type = ty,
             doc_size = int (length content)\<rparr> (store k) = Some g1
     \<and> store k' = cli_relate (extractConcepts_cli content)
          (fold (cli_store_concept (ty @ ''_'' @ stamp)) (extractConcepts_cli content) g1)
     \<and> totalSize k' = totalSize k + int (length content) \<and> maxSize k' = maxSize k"
  using assms by (auto simp: processDocument_def Let_def split: option.splits)

lemma processDocument_frequency:
  assumes "processDocument k nm content ty stamp = (Inr s, k')"
  shows "counted (store k) x \<Longrightarrow>
         counted (store k') x
         \<and> stored_count (store k') x
             = stored_count (store k) x + count_list (extractConcepts_cli content) x"
    and "name ` set (concepts (store k')) =
           name ` set (concepts (store k)) \<union> set (extractConcepts_cli content)"
proof -
  let ?cs = "extractConcepts_cli content"
  from processDocument_Inr [OF assms] obtain g1 where
    g1: "create_document
            \<lparr>doc_id = ty @ ''_'' @ stamp, doc_name = nm, doc_content = content, doc_type = ty,
             doc_size = int (length content)\<rparr> (store k) = Some g1" and
    s': "store k' = cli_relate ?cs (fold (cli_store_concept (ty @ ''_'' @ stamp)) ?cs g1)"
    by auto
  have c1: "concepts g1 = concepts (store k)" using g1 by (rule frame)
  have c': "concepts (store k') = concepts (fold (cli_store_concept (ty @ ''_'' @ stamp)) ?cs g1)"
    by (simp add: s' frame)
  have f1: "concept_frequency g1 x = concept_frequency (store k) x"
    using concept_frequency_cong [OF c1] .
  have f': "concept_frequency (store k') x
      = concept_frequency (fold (cli_store_concept (ty @ ''_'' @ stamp)) ?cs g1) x"
    using concept_frequency_cong [OF c'] .
  show "counted (store k') x
         \<and> stored_count (store k') x = stored_count (store k) x + count_list ?cs x"
    if "counted (store k) x"
  proof -
    have "counted g1 x" using that f1 by (simp add: counted_def)
    from fold_cli_store_counts [OF this, of "ty @ ''_'' @ stamp" ?cs]
    show ?thesis using f1 f' by (simp add: counted_def stored_count_def)
  qed
  show "name ` set (concepts (store k')) = name ` set (concepts (store k)) \<union> set ?cs"
    by (simp add: c' names_fold_cli_store c1)
qed

subsection \<open>The concepts of the command-line variant are pairwise different\<close>

lemma split_runs_pieces:
  "p \<in> set (split_runs sep b s) \<Longrightarrow> c \<in> set p \<Longrightarrow> \<not> sep c"
proof (induction s arbitrary: b p)
  case Nil
  then show ?case by simp
next
  case (Cons a s)
  show ?case
  proof (cases "sep a")
    case True
    then have "p \<in> set (split_runs sep True s) \<or> p = []"
      using Cons.prems(1) by (auto split: if_splits)
    then show ?thesis using Cons.IH Cons.prems(2) by auto
  next
    case False
    show ?thesis
    proof (cases "split_runs sep False s")
      case Nil
      then show ?thesis using Cons.prems False by auto
    next
      case (Cons q qs)
      then have "p = a # q \<or> p \<in> set qs" using Cons.prems(1) False by auto
      then show ?thesis
      proof
        assume "p = a # q"
        moreover have "q \<in> set (split_runs sep False s)" using Cons by simp
        ultimately show ?thesis using Cons.IH [of q False] Cons.prems(2) False by auto
      next
        assume "p \<in> set qs"
        then have "p \<in> set (split_runs sep False s)" using Cons by simp
        then show ?thesis using Cons.IH Cons.prems(2) by blast
      qed
    qed
  qed
qed

lemma phrases_of_space: "p \<in> set (phrases_of ws) \<Longrightarrow> CHR '' '' \<in> set p"
  by (induction ws rule: phrases_of.induct) (auto simp: Let_def split: if_splits)

lemma ranked_keys:
  "set (map fst (take n (sort_key f (filter P (object_entries (count_words ws)))))) \<subseteq> set ws"
proof -
  have "set (take n (sort_key f (filter P (object_entries (count_words ws)))))
      \<subseteq> set (count_words ws)"
    using set_take_subset [of n "sort_key f (filter P (object_entries (count_words ws)))"]
    by (auto simp: set_object_entries)
  then show ?thesis using keys_count_words [of ws] by auto
qed

lemma ranked_distinct:
  "distinct (map fst (take n (sort_key f (filter P (object_entries (count_words ws))))))"
proof -
  let ?F = "filter P (object_entries (count_words ws))"
  have "distinct (map fst (object_entries (count_words ws)))"
    by (simp add: distinct_keys_object_entries distinct_count_words)
  then have "distinct (map fst ?F)" by (rule distinct_map_filter)
  moreover have "mset (map fst (sort_key f ?F)) = mset (map fst ?F)" by simp
  ultimately have "distinct (map fst (sort_key f ?F))" by (metis mset_eq_imp_distinct_iff)
  then have "distinct (take n (map fst (sort_key f ?F)))" by (rule distinct_take)
  then show ?thesis by (simp add: take_map)
qed

lemma extractConcepts_cli_distinct: "distinct (extractConcepts_cli content)"
proof -
  have sp: "is_space (CHR '' '')" by (simp add: is_space_def)
  have w: "CHR '' '' \<notin> set x" if "x \<in> set (singleWordConcepts content)" for x
  proof -
    from that have "x \<in> set (split_ws (clean content))"
      using ranked_keys unfolding singleWordConcepts_def cli_word_frequency_def
      by (metis (no_types, lifting) filter_is_subset subset_iff)
    then show ?thesis using split_runs_pieces sp unfolding split_ws_def by blast
  qed
  have p: "CHR '' '' \<in> set x" if "x \<in> set (phraseConcepts content)" for x
  proof -
    from that have "x \<in> set (concat (map (\<lambda>sentence. phrases_of (split_ws (clean sentence)))
                    (split_sentences content)))"
      using ranked_keys unfolding phraseConcepts_def cli_phrase_frequency_def by blast
    then show ?thesis using phrases_of_space by auto
  qed
  have "distinct (singleWordConcepts content)" "distinct (phraseConcepts content)"
    unfolding singleWordConcepts_def phraseConcepts_def cli_word_frequency_def
      cli_phrase_frequency_def by (rule ranked_distinct)+
  moreover have "set (singleWordConcepts content) \<inter> set (phraseConcepts content) = {}"
    using w p by blast
  ultimately show ?thesis by (simp add: extractConcepts_cli_def)
qed

lemma count_list_distinct: "distinct xs \<Longrightarrow> x \<in> set xs \<Longrightarrow> count_list xs x = 1"
  by (induction xs) (auto simp: count_list_0_iff)

text \<open>Sample inputs, for evaluation.\<close>

definition sample_env :: env where
  "sample_env = \<lparr>nlp_of = sample_nlp, api_key = False, llm = (\<lambda>prompt. None),
     maxFileSize = 104857600\<rparr>"

definition sample_page :: "string \<Rightarrow> url_source" where
  "sample_page stamp = \<lparr>u_url = ''http://a.example'',
     u_body = Some ''Graphs and trees.  Graph, tree: graph! '', u_base64 = ''aHR0cDovL2EuZXhhbXBsZQ=='',
     u_stamp = stamp\<rparr>"

definition sample_cli :: cli where
  "sample_cli = \<lparr>totalSize = 0, maxSize = 104857600, store = empty_graph\<rparr>"

text \<open>
  C1, as amended. In knowledge-graph.js, when \<open>ingestUrl\<close> ingests two pages one after
  the other without the clear flag (each creating its own document), none of whose
  stems names an inherited member, a concept extracted from both is extracted with the
  number of occurrences of its stem in each page, and its stored frequency afterwards is
  what it was before merged with the two extracted frequencies: the sum of the two for
  a concept that did not exist, and \<open>k\<close> plus the two for one that had the count \<open>k\<close>.
  The merge creates a concept with the candidate's frequency and adds the candidate's
  frequency to an existing one. In the command-line variant with a size budget a
  candidate is a bare name: the merge creates the concept with frequency 1 and adds 1
  for every later document that yields it, whatever count the extraction found (for a
  concept that did not exist or whose frequency was a count).
\<close>

theorem merge_adds_frequencies:
  "(ingestUrl ev u1 False g = (True, g1) \<longrightarrow> ingestUrl ev u2 False g1 = (True, g2) \<longrightarrow>
      plain_words (stems (nlp_of ev) (page_text u1)) \<longrightarrow>
      plain_words (stems (nlp_of ev) (page_text u2)) \<longrightarrow>
      c1 \<in> set (extractConcepts (nlp_of ev) (page_text u1)) \<longrightarrow>
      c2 \<in> set (extractConcepts (nlp_of ev) (page_text u2)) \<longrightarrow> name c1 = name c2 \<longrightarrow>
      frequency c1 = Count (count_list (stems (nlp_of ev) (page_text u1)) (name c1))
      \<and> frequency c2 = Count (count_list (stems (nlp_of ev) (page_text u2)) (name c1))
      \<and> concept_frequency g2 (name c1)
          = Some (merged (Some (merged (concept_frequency g (name c1)) (frequency c1)))
                    (frequency c2))
      \<and> (concept_frequency g (name c1) = None \<longrightarrow>
           concept_frequency g2 (name c1)
             = Some (Count (count_list (stems (nlp_of ev) (page_text u1)) (name c1)
                            + count_list (stems (nlp_of ev) (page_text u2)) (name c1))))
      \<and> (\<forall>k. concept_frequency g (name c1) = Some (Count k) \<longrightarrow>
           concept_frequency g2 (name c1)
             = Some (Count (k + count_list (stems (nlp_of ev) (page_text u1)) (name c1)
                            + count_list (stems (nlp_of ev) (page_text u2)) (name c1)))))
   \<and> (processDocument k nm1 t1 ty1 st1 = (Inr s1, k1) \<longrightarrow>
      processDocument k1 nm2 t2 ty2 st2 = (Inr s2, k2) \<longrightarrow>
      x \<in> set (extractConcepts_cli t1) \<longrightarrow> x \<in> set (extractConcepts_cli t2) \<longrightarrow>
      counted (store k) x \<longrightarrow>
      concept_frequency (store k2) x = Some (Count (stored_count (store k) x + 1 + 1)))
   \<and> concept_frequency (merge_concept n f g0) n = Some (merged (concept_frequency g0 n) f)
   \<and> merged None f = f
   \<and> merged (Some (Count a)) (Count b) = Count (a + b)"
proof (intro conjI impI)
  assume i1: "ingestUrl ev u1 False g = (True, g1)" and i2: "ingestUrl ev u2 False g1 = (True, g2)"
    and p1: "plain_words (stems (nlp_of ev) (page_text u1))"
    and p2: "plain_words (stems (nlp_of ev) (page_text u2))"
    and c1: "c1 \<in> set (extractConcepts (nlp_of ev) (page_text u1))"
    and c2: "c2 \<in> set (extractConcepts (nlp_of ev) (page_text u2))"
    and eq: "name c1 = name c2"
  let ?a = "count_list (stems (nlp_of ev) (page_text u1)) (name c1)"
  let ?b = "count_list (stems (nlp_of ev) (page_text u2)) (name c1)"
  show f1: "frequency c1 = Count ?a"
    using extractConcepts_sound [OF p1 c1] by simp
  show f2: "frequency c2 = Count ?b"
    using extractConcepts_sound [OF p2 c2] eq by simp
  have s1: "concept_frequency g1 (name c1)
      = Some (merged (concept_frequency g (name c1)) (frequency c1))"
    using ingestUrl_frequency(1) [OF i1 p1 c1] .
  show s2: "concept_frequency g2 (name c1)
      = Some (merged (Some (merged (concept_frequency g (name c1)) (frequency c1)))
                (frequency c2))"
    using ingestUrl_frequency(1) [OF i2 p2 c2] s1 eq by simp
  show "concept_frequency g2 (name c1) = Some (Count (?a + ?b))"
    if "concept_frequency g (name c1) = None"
    using s2 that f1 f2 by (simp add: merged_def)
  show "\<forall>k. concept_frequency g (name c1) = Some (Count k) \<longrightarrow>
      concept_frequency g2 (name c1) = Some (Count (k + ?a + ?b))"
    using s2 f1 f2 by (simp add: merged_def)
next
  assume p1: "processDocument k nm1 t1 ty1 st1 = (Inr s1, k1)"
    and p2: "processDocument k1 nm2 t2 ty2 st2 = (Inr s2, k2)"
    and x1: "x \<in> set (extractConcepts_cli t1)" and x2: "x \<in> set (extractConcepts_cli t2)"
    and c: "counted (store k) x"
  have a1: "counted (store k1) x"
    "stored_count (store k1) x = stored_count (store k) x + count_list (extractConcepts_cli t1) x"
    using processDocument_frequency(1) [OF p1 c] by simp_all
  have a2: "counted (store k2) x"
    "stored_count (store k2) x = stored_count (store k1) x + count_list (extractConcepts_cli t2) x"
    using processDocument_frequency(1) [OF p2 a1(1)] by simp_all
  have "stored_count (store k2) x = stored_count (store k) x + 1 + 1"
    using a1(2) a2(2) count_list_distinct [OF extractConcepts_cli_distinct x1]
      count_list_distinct [OF extractConcepts_cli_distinct x2] by simp
  moreover have "x \<in> name ` set (concepts (store k2))"
    using processDocument_frequency(2) [OF p2] x2 by auto
  ultimately show "concept_frequency (store k2) x = Some (Count (stored_count (store k) x + 1 + 1))"
    using stored_count_eq [OF a2(1)] by simp
next
  show "concept_frequency (merge_concept n f g0) n = Some (merged (concept_frequency g0 n) f)"
    by (simp add: concept_frequency_merge)
  show "merged None f = f" by (simp add: merged_def)
  show "merged (Some (Count a)) (Count b) = Count (a + b)" by (simp add: merged_def)
qed

lemma sample_page_ingested:
  "fst (ingestUrl sample_env (sample_page ''1'') False empty_graph)"
  "fst (ingestUrl sample_env (sample_page ''2'') False
         (snd (ingestUrl sample_env (sample_page ''1'') False empty_graph)))"
  "\<lparr>name = ''graph'', frequency = Count 3\<rparr>
     \<in> set (extractConcepts (nlp_of sample_env) (page_text (sample_page ''1'')))"
  "\<lparr>name = ''graph'', frequency = Count 3\<rparr>
     \<in> set (extractConcepts (nlp_of sample_env) (page_text (sample_page ''2'')))"
  "concept_frequency empty_graph ''graph'' = None"
  "plain_words (stems (nlp_of sample_env) (page_text (sample_page ''1'')))"
  "plain_words (stems (nlp_of sample_env) (page_text (sample_page ''2'')))"
  "count_list (stems (nlp_of sample_env) (page_text (sample_page ''1''))) ''graph'' = 3"
  "count_list (stems (nlp_of sample_env) (page_text (sample_page ''2''))) ''graph'' = 3"
  by code_simp+

lemma sample_cli_processed:
  "isl (fst (processDocument sample_cli ''a.txt'' ''graph graph'' ''file'' ''1'')) = False"
  "isl (fst (processDocument
         (snd (processDocument sample_cli ''a.txt'' ''graph graph'' ''file'' ''1''))
         ''a.txt'' ''graph graph'' ''file'' ''2'')) = False"
  "''graph'' \<in> set (extractConcepts_cli ''graph graph'')"
  "stored_count (store sample_cli) ''graph'' = 0"
  "counted (store sample_cli) ''graph''"
  by code_simp+

theorem merge_adds_frequencies_witness:
  "concept_frequency
     (snd (ingestUrl sample_env (sample_page ''2'') False
        (snd (ingestUrl sample_env (sample_page ''1'') False empty_graph)))) ''graph''
     = Some (Count (3 + 3))
   \<and> concept_frequency
     (store (snd (processDocument
         (snd (processDocument sample_cli ''a.txt'' ''graph graph'' ''file'' ''1''))
         ''a.txt'' ''graph graph'' ''file'' ''2''))) ''graph''
     = Some (Count (1 + 1))"
proof -
  let ?g1 = "snd (ingestUrl sample_env (sample_page ''1'') False empty_graph)"
  let ?g2 = "snd (ingestUrl sample_env (sample_page ''2'') False ?g1)"
  let ?k1 = "snd (processDocument sample_cli ''a.txt'' ''graph graph'' ''file'' ''1'')"
  let ?r2 = "processDocument ?k1 ''a.txt'' ''graph graph'' ''file'' ''2''"
  have a: "ingestUrl sample_env (sample_page ''1'') False empty_graph = (True, ?g1)"
    "ingestUrl sample_env (sample_page ''2'') False ?g1 = (True, ?g2)"
    using sample_page_ingested(1,2) by (simp_all add: prod_eq_iff)
  obtain s1 where s1: "processDocument sample_cli ''a.txt'' ''graph graph'' ''file'' ''1'' = (Inr s1, ?k1)"
    using sample_cli_processed(1)
    by (cases "fst (processDocument sample_cli ''a.txt'' ''graph graph'' ''file'' ''1'')")
      (auto simp: prod_eq_iff)
  obtain s2 where s2: "?r2 = (Inr s2, snd ?r2)"
    using sample_cli_processed(2) by (cases "fst ?r2") (auto simp: prod_eq_iff)
  note t = merge_adds_frequencies [where ev = sample_env and ?u1.0 = "sample_page ''1''"
      and g = empty_graph and ?g1.0 = ?g1 and ?u2.0 = "sample_page ''2''" and ?g2.0 = ?g2
      and ?c1.0 = "\<lparr>name = ''graph'', frequency = Count 3\<rparr>"
      and ?c2.0 = "\<lparr>name = ''graph'', frequency = Count 3\<rparr>"
      and k = sample_cli and ?nm1.0 = "''a.txt''" and ?t1.0 = "''graph graph''"
      and ?ty1.0 = "''file''" and ?st1.0 = "''1''" and ?s1.0 = s1 and ?k1.0 = ?k1
      and ?nm2.0 = "''a.txt''" and ?t2.0 = "''graph graph''" and ?ty2.0 = "''file''"
      and ?st2.0 = "''2''" and ?s2.0 = s2 and ?k2.0 = "snd ?r2" and x = "''graph''"]
  from t a sample_page_ingested(3-9) have
    "concept_frequency ?g2 ''graph'' = Some (Count (3 + 3))" by simp
  moreover from t s1 s2 sample_cli_processed(3,4,5) have
    "concept_frequency (store (snd ?r2)) ''graph'' = Some (Count (1 + 1))" by simp
  ultimately show ?thesis by blast
qed

text \<open>The command-line variant extracts \<open>graph\<close> with the count 2 from each of two
  documents, and stores the frequency 1 after the first and 2 after the second, where
  the sum of the two extractions is 4.\<close>

theorem cli_merge_counterexample:
  "cli_word_frequency ''graph graph'' = [(''graph'', Count 2)]
   \<and> extractConcepts_cli ''graph graph'' = [''graph'']
   \<and> concept_frequency
        (store (snd (processDocument sample_cli ''a.txt'' ''graph graph'' ''file'' ''1'')))
        ''graph'' = Some (Count 1)
   \<and> concept_frequency
        (store (snd (processDocument
           (snd (processDocument sample_cli ''a.txt'' ''graph graph'' ''file'' ''1''))
           ''a.txt'' ''graph graph'' ''file'' ''2''))) ''graph'' = Some (Count 2)"
  by code_simp

subsection \<open>The relationships an ingestion leaves\<close>

lemma related_cong:
  assumes "related g = related g'"
  shows "edges_between g a b = edges_between g' a b"
    "related_weight g a b = related_weight g' a b" "one_edge g = one_edge g'"
  using assms by (simp_all add: edges_between_def related_weight_def one_edge_def)

lemma one_edge_weight_length:
  assumes "one_edge g" and "related_weight g a b = Some w"
  shows "length (edges_between g a b) = 1"
proof -
  from assms(2) have "edges_between g a b \<noteq> []"
    by (auto simp: related_weight_def)
  then have "0 < length (edges_between g a b)" by simp
  moreover have "length (edges_between g a b) \<le> 1" using assms(1) by (simp add: one_edge_def)
  ultimately show ?thesis by linarith
qed

lemma one_edge_empty: "one_edge empty_graph" "one_edge (clear_graph g)"
  by (simp_all add: one_edge_def edges_between_def empty_graph_def clear_graph_def)

text \<open>After a page none of whose stems names an inherited member is ingested by
  \<open>ingestUrl\<close>, two of its concepts are joined by exactly one edge, found from either end,
  whose weight is the old weight plus the smaller of the two counts; no numeric weight in
  the graph has decreased.\<close>

lemma ingestUrl_related:
  assumes i: "ingestUrl ev u False g = (True, g')" and one: "one_edge g"
    and plain: "plain_words (stems (nlp_of ev) (page_text u))"
  shows "one_edge g'"
    and "c \<in> set (extractConcepts (nlp_of ev) (page_text u)) \<Longrightarrow>
         d \<in> set (extractConcepts (nlp_of ev) (page_text u)) \<Longrightarrow> name c \<noteq> name d \<Longrightarrow>
         length (edges_between g' (name c) (name d)) = 1
         \<and> edges_between g' (name c) (name d) = edges_between g' (name d) (name c)
         \<and> related_weight g' (name c) (name d)
             = add_weight (related_weight g (name c) (name d))
                 (Num (min (count_of (frequency c)) (count_of (frequency d))))"
    and "related_weight g x y = Some (Num k) \<Longrightarrow>
         \<exists>k'. k \<le> k' \<and> related_weight g' x y = Some (Num k')"
proof -
  let ?cs = "extractConcepts (nlp_of ev) (page_text u)"
  from ingestUrl_True [OF i] obtain g2 where
    g2: "create_document (url_document u) g = Some g2" and
    g': "g' = createConceptRelationships (map as_candidate ?cs)
            (fold (store_concept (doc_id (url_document u))) ?cs g2)"
    by auto
  let ?g3 = "fold (store_concept (doc_id (url_document u))) ?cs g2"
  have r3: "related ?g3 = related g" using g2 by (simp add: frame)
  have nodes: "name ` set ?cs \<subseteq> name ` set (concepts ?g3)"
    by (simp add: names_fold_store)
  have dist: "distinct (map name ?cs)" using plain by (rule extractConcepts_distinct)
  have cnt: "frequency c = Count (count_of (frequency c))" if "c \<in> set ?cs" for c
    using extractConcepts_sound [OF plain that] by simp
  then have counts: "list_all (\<lambda>c. is_count (frequency c)) ?cs"
    by (auto simp: list_all_iff) (metis is_count.simps(1))
  have one3: "one_edge ?g3" using one related_cong(3) [OF r3] by simp
  note ra = related_after_concepts [OF nodes dist]
  show one': "one_edge g'" unfolding g' using ra(1) one3 .
  show "length (edges_between g' (name c) (name d)) = 1
         \<and> edges_between g' (name c) (name d) = edges_between g' (name d) (name c)
         \<and> related_weight g' (name c) (name d)
             = add_weight (related_weight g (name c) (name d))
                 (Num (min (count_of (frequency c)) (count_of (frequency d))))"
    if "c \<in> set ?cs" "d \<in> set ?cs" "name c \<noteq> name d"
  proof -
    have "weight_of (as_candidate c) (as_candidate d)
        = Num (min (count_of (frequency c)) (count_of (frequency d)))"
      using weight_of_concepts [OF cnt [OF that(1)] cnt [OF that(2)]] .
    then have w: "related_weight g' (name c) (name d)
        = add_weight (related_weight g (name c) (name d))
            (Num (min (count_of (frequency c)) (count_of (frequency d))))"
      unfolding g' using ra(2) [OF that] related_cong(2) [OF r3] by simp
    then have "length (edges_between g' (name c) (name d)) = 1"
      using one_edge_weight_length [OF one'] by (simp add: add_weight_def)
    with w edges_between_sym show ?thesis by blast
  qed
  show "\<exists>k'. k \<le> k' \<and> related_weight g' x y = Some (Num k')"
    if "related_weight g x y = Some (Num k)"
    unfolding g' using ra(3) [OF counts, of x y k] that related_cong(2) [OF r3] by simp
qed

lemma cli_relate_pairs:
  "cli_relate cs g = apply_pairs (pairs_of (\<lambda>c. c) (\<lambda>c d. Num 1) cs) g"
proof (induction cs arbitrary: g)
  case Nil
  then show ?case by (simp add: apply_pairs_def)
next
  case (Cons c cs)
  have "fold (\<lambda>d. merge_related c d (Num 1)) cs g
      = apply_pairs (map (\<lambda>d. (c, d, Num 1)) cs) g"
    by (simp add: apply_pairs_def fold_map comp_def)
  then show ?case by (simp add: Cons.IH apply_pairs_append)
qed

lemma pairs_of_unit_numeric:
  "p \<in> set (pairs_of (\<lambda>c. c) (\<lambda>c d. Num 1) cs) \<Longrightarrow> \<exists>k. snd (snd p) = Num k"
  by (induction cs) auto

text \<open>The same for a document processed by the command-line variant, where every
  co-occurrence adds 1.\<close>

lemma processDocument_related:
  assumes p: "processDocument k nm content ty stamp = (Inr s, k')" and one: "one_edge (store k)"
  shows "one_edge (store k')"
    and "c \<in> set (extractConcepts_cli content) \<Longrightarrow> d \<in> set (extractConcepts_cli content) \<Longrightarrow>
         c \<noteq> d \<Longrightarrow>
         length (edges_between (store k') c d) = 1
         \<and> edges_between (store k') c d = edges_between (store k') d c
         \<and> related_weight (store k') c d = add_weight (related_weight (store k) c d) (Num 1)"
    and "related_weight (store k) x y = Some (Num j) \<Longrightarrow>
         \<exists>j'. j \<le> j' \<and> related_weight (store k') x y = Some (Num j')"
proof -
  let ?cs = "extractConcepts_cli content"
  define one_w :: "string \<Rightarrow> string \<Rightarrow> jsnum" where "one_w = (\<lambda>c d. Num 1)"
  define ps where "ps = pairs_of (\<lambda>c. c) one_w ?cs"
  define docId where "docId = ty @ ''_'' @ stamp"
  from processDocument_Inr [OF p] obtain g1 where
    g1: "create_document
            \<lparr>doc_id = docId, doc_name = nm, doc_content = content, doc_type = ty,
             doc_size = int (length content)\<rparr> (store k) = Some g1" and
    s': "store k' = cli_relate ?cs (fold (cli_store_concept docId) ?cs g1)"
    unfolding docId_def by auto
  define g2 where "g2 = fold (cli_store_concept docId) ?cs g1"
  have "related (fold (cli_store_concept d) cs g) = related g" for d cs g
    by (induction cs arbitrary: g) (simp_all add: cli_store_concept_def frame)
  then have r2: "related g2 = related (store k)" using g1 by (simp add: g2_def frame)
  have nodes: "set ?cs \<subseteq> name ` set (concepts g2)"
    by (simp add: g2_def names_fold_cli_store)
  have ex: "\<forall>p \<in> set ps. node_exists ConceptL (fst p) g2 \<and> node_exists ConceptL (fst (snd p)) g2"
    using pairs_of_names [of _ "\<lambda>c. c" one_w ?cs] nodes
    by (auto simp: node_exists_def ps_def)
  note rw = related_weight_apply_pairs [OF ex]
  have st: "store k' = apply_pairs ps g2"
    by (simp add: s' cli_relate_pairs ps_def g2_def one_w_def)
  have one2: "one_edge g2" using one related_cong(3) [OF r2] by simp
  show one': "one_edge (store k')" unfolding st by (rule one_edge_apply_pairs [OF one2])
  have dist: "distinct (map (\<lambda>c. c) ?cs)" using extractConcepts_cli_distinct by simp
  show "length (edges_between (store k') c d) = 1
         \<and> edges_between (store k') c d = edges_between (store k') d c
         \<and> related_weight (store k') c d = add_weight (related_weight (store k) c d) (Num 1)"
    if "c \<in> set ?cs" "d \<in> set ?cs" "c \<noteq> d"
  proof -
    have "map (\<lambda>p. snd (snd p)) (filter (hits c d) ps) = [one_w c d]"
      unfolding ps_def
      using hits_pairs_one [OF dist that(1,2), of one_w] that(3) by (simp add: one_w_def)
    then have w: "related_weight (store k') c d = add_weight (related_weight (store k) c d) (Num 1)"
      using related_cong(2) [OF r2] by (simp add: st rw one_w_def)
    then have "length (edges_between (store k') c d) = 1"
      using one_edge_weight_length [OF one'] by (simp add: add_weight_def)
    with w edges_between_sym show ?thesis by blast
  qed
  show "\<exists>j'. j \<le> j' \<and> related_weight (store k') x y = Some (Num j')"
    if "related_weight (store k) x y = Some (Num j)"
  proof -
    have "\<forall>w \<in> set (map (\<lambda>p. snd (snd p)) (filter (hits x y) ps)). \<exists>k. w = Num k"
      using pairs_of_unit_numeric unfolding ps_def one_w_def by auto
    from foldl_add_weight_mono [OF this, of j] show ?thesis
      using related_cong(2) [OF r2] that by (simp add: st rw)
  qed
qed

text \<open>
  C3. In \<open>ingestFile\<close> the concepts of a file become Entity nodes, and
  \<open>createConceptRelationships\<close>, which looks for Concept nodes, finds none: no
  relationship is created between two concepts extracted from the same file, so none can
  be retrieved in either order. The first version of \<open>ingestFile\<close> and \<open>ingestUrl\<close>
  create the edge (\<open>ingestUrl_related\<close>).
\<close>

definition sample_file :: "string \<Rightarrow> file_source" where
  "sample_file stamp = \<lparr>f_name = ''notes.txt'', f_stat = Some 37,
     f_read = Some ''Graphs and trees. Graph, tree: graph!'', f_stamp = stamp\<rparr>"

theorem ingestFile_relates_nothing:
  "fst (ingestFile sample_env (sample_file ''1'') False empty_graph)
   \<and> map (\<lambda>c. (name c, frequency c))
        (extractConcepts (nlp_of sample_env) ''Graphs and trees. Graph, tree: graph!'')
       = [(''graph'', Count 3), (''tree'', Count 2)]
   \<and> map (\<lambda>e. (e_name e, e_frequency e))
        (entities (snd (ingestFile sample_env (sample_file ''1'') False empty_graph)))
       = [(''graph'', Count 3), (''tree'', Count 2)]
   \<and> concepts (snd (ingestFile sample_env (sample_file ''1'') False empty_graph)) = []
   \<and> edges_between (snd (ingestFile sample_env (sample_file ''1'') False empty_graph))
        ''graph'' ''tree'' = []
   \<and> edges_between (snd (ingestFile sample_env (sample_file ''1'') False empty_graph))
        ''tree'' ''graph'' = []
   \<and> edges_between (snd (ingestFile_legacy sample_env (sample_file ''1'') False empty_graph))
        ''tree'' ''graph'' = [\<lparr>r_from = ''graph'', r_to = ''tree'', r_weight = Num 2\<rparr>]"
  by code_simp

section \<open>The ingest batch\<close>

text \<open>A frequency that is not smaller than an earlier one: a count that is at least the
  earlier count; or a text, which is what a frequency is once a text has been merged
  into it, and which later merges only extend at its end.\<close>

fun not_smaller :: "jsval \<Rightarrow> jsval \<Rightarrow> bool" where
  "not_smaller (Count a) (Count b) = (a \<le> b)"
| "not_smaller (Count a) (Str t) = True"
| "not_smaller (Str s) (Str t) = (take (length s) t = s)"
| "not_smaller (Str s) (Count b) = False"

lemma not_smaller_refl: "not_smaller a a"
  by (cases a) auto

lemma not_smaller_trans: "not_smaller a b \<Longrightarrow> not_smaller b c \<Longrightarrow> not_smaller a c"
proof (cases a; cases b; cases c)
  fix s t u
  assume "a = Str s" "b = Str t" "c = Str u" "not_smaller a b" "not_smaller b c"
  then have st: "take (length s) t = s" and tu: "take (length t) u = t" by auto
  have "length (take (length s) t) = length s" using st by simp
  then have "length s \<le> length t" by simp
  then have "take (length s) u = take (length s) (take (length t) u)" by (simp add: min_def)
  then show "not_smaller a c" using st tu \<open>a = Str s\<close> \<open>c = Str u\<close> by simp
qed auto

lemma not_smaller_cy_add: "not_smaller a (cy_add a f)"
  by (cases a; cases f) auto

text \<open>Every document of \<open>g\<close> is still in \<open>g'\<close>, every concept of \<open>g\<close> is still a concept
  of \<open>g'\<close> and every entity of \<open>g\<close> still an entity of \<open>g'\<close>, with a frequency that is not
  smaller.\<close>

definition keeps_concepts :: "graph \<Rightarrow> graph \<Rightarrow> bool" where
  "keeps_concepts g g' =
     (\<forall>c \<in> set (concepts g). \<exists>c' \<in> set (concepts g').
        name c' = name c \<and> not_smaller (frequency c) (frequency c'))"

definition keeps_entities :: "graph \<Rightarrow> graph \<Rightarrow> bool" where
  "keeps_entities g g' =
     (\<forall>e \<in> set (entities g). \<exists>e' \<in> set (entities g').
        e_name e' = e_name e \<and> not_smaller (e_frequency e) (e_frequency e'))"

definition keeps_nodes :: "graph \<Rightarrow> graph \<Rightarrow> bool" where
  "keeps_nodes g g' =
     ((\<exists>ds. documents g' = documents g @ ds) \<and> keeps_concepts g g' \<and> keeps_entities g g')"

lemma keeps_concepts_refl: "keeps_concepts g g"
  by (auto simp: keeps_concepts_def intro: not_smaller_refl)

lemma keeps_entities_refl: "keeps_entities g g"
  by (auto simp: keeps_entities_def intro: not_smaller_refl)

lemma keeps_concepts_trans:
  "keeps_concepts g g' \<Longrightarrow> keeps_concepts g' g'' \<Longrightarrow> keeps_concepts g g''"
  unfolding keeps_concepts_def by (metis (no_types, lifting) not_smaller_trans)

lemma keeps_entities_trans:
  "keeps_entities g g' \<Longrightarrow> keeps_entities g' g'' \<Longrightarrow> keeps_entities g g''"
  unfolding keeps_entities_def by (metis (no_types, lifting) not_smaller_trans)

lemma keeps_concepts_same: "concepts g' = concepts g \<Longrightarrow> keeps_concepts g g'"
  by (auto simp: keeps_concepts_def intro: not_smaller_refl)

lemma keeps_entities_same: "entities g' = entities g \<Longrightarrow> keeps_entities g g'"
  by (auto simp: keeps_entities_def intro: not_smaller_refl)

lemma keeps_nodes_refl: "keeps_nodes g g"
  by (simp add: keeps_nodes_def keeps_concepts_refl keeps_entities_refl)

lemma keeps_nodes_trans: "keeps_nodes g g' \<Longrightarrow> keeps_nodes g' g'' \<Longrightarrow> keeps_nodes g g''"
  unfolding keeps_nodes_def
  using keeps_concepts_trans keeps_entities_trans by (metis append.assoc)

lemma keeps_nodes_same:
  "documents g' = documents g \<Longrightarrow> concepts g' = concepts g \<Longrightarrow> entities g' = entities g \<Longrightarrow>
   keeps_nodes g g'"
  by (simp add: keeps_nodes_def keeps_concepts_same keeps_entities_same)

lemma keeps_nodes_merge_concept: "keeps_nodes g (merge_concept nm f g)"
proof -
  have "\<exists>c' \<in> set (concepts (merge_concept nm f g)).
      name c' = name c \<and> not_smaller (frequency c) (frequency c')"
    if "c \<in> set (concepts g)" for c
  proof (cases "nm \<in> name ` set (concepts g)")
    case True
    let ?u = "\<lambda>c. if name c = nm then c\<lparr>frequency := cy_add (frequency c) f\<rparr> else c"
    have "?u c \<in> set (concepts (merge_concept nm f g))"
      using True that by (auto simp: merge_concept_def)
    moreover have "name (?u c) = name c \<and> not_smaller (frequency c) (frequency (?u c))"
      by (simp add: not_smaller_refl not_smaller_cy_add)
    ultimately show ?thesis by blast
  next
    case False
    then have "c \<in> set (concepts (merge_concept nm f g))"
      using that by (simp add: merge_concept_def)
    then show ?thesis using not_smaller_refl by blast
  qed
  then show ?thesis
    by (simp add: keeps_nodes_def keeps_concepts_def keeps_entities_same frame)
qed

lemma keeps_nodes_merge_entity: "keeps_nodes g (merge_entity nm ty de f g)"
proof -
  have "\<exists>e' \<in> set (entities (merge_entity nm ty de f g)).
      e_name e' = e_name e \<and> not_smaller (e_frequency e) (e_frequency e')"
    if "e \<in> set (entities g)" for e
  proof (cases "nm \<in> e_name ` set (entities g)")
    case True
    let ?u = "\<lambda>e. if e_name e = nm then e\<lparr>e_frequency := cy_add (e_frequency e) f\<rparr> else e"
    have "?u e \<in> set (entities (merge_entity nm ty de f g))"
      using True that by (auto simp: merge_entity_def)
    moreover have "e_name (?u e) = e_name e \<and> not_smaller (e_frequency e) (e_frequency (?u e))"
      by (simp add: not_smaller_refl not_smaller_cy_add)
    ultimately show ?thesis by blast
  next
    case False
    then have "e \<in> set (entities (merge_entity nm ty de f g))"
      using that by (simp add: merge_entity_def)
    then show ?thesis using not_smaller_refl by blast
  qed
  then show ?thesis
    by (simp add: keeps_nodes_def keeps_entities_def keeps_concepts_same frame)
qed

lemma keeps_nodes_store_entity: "keeps_nodes g (store_entity d c g)"
proof -
  obtain f ty de where
    s: "store_entity d c g = create_contains d EntityL (c_name c) f (merge_entity (c_name c) ty de f g)"
    by (simp add: store_entity_def Let_def)
  have "keeps_nodes (merge_entity (c_name c) ty de f g) (store_entity d c g)"
    unfolding s by (rule keeps_nodes_same) (simp_all add: frame)
  with keeps_nodes_merge_entity show ?thesis by (rule keeps_nodes_trans)
qed

lemma keeps_nodes_fold_store_entity: "keeps_nodes g (fold (store_entity d) cs g)"
proof (induction cs arbitrary: g)
  case Nil
  then show ?case by (simp add: keeps_nodes_refl)
next
  case (Cons c cs)
  show ?case using keeps_nodes_trans [OF keeps_nodes_store_entity Cons.IH] by simp
qed

lemma keeps_nodes_store_concept: "keeps_nodes g (store_concept d c g)"
proof -
  have "keeps_nodes (merge_concept (name c) (frequency c) g) (store_concept d c g)"
    by (rule keeps_nodes_same) (simp_all add: store_concept_def frame)
  with keeps_nodes_merge_concept show ?thesis by (rule keeps_nodes_trans)
qed

lemma keeps_nodes_fold_store: "keeps_nodes g (fold (store_concept d) cs g)"
proof (induction cs arbitrary: g)
  case Nil
  then show ?case by (simp add: keeps_nodes_refl)
next
  case (Cons c cs)
  show ?case using keeps_nodes_trans [OF keeps_nodes_store_concept Cons.IH] by simp
qed

lemma keeps_nodes_create_document: "create_document d g = Some g' \<Longrightarrow> keeps_nodes g g'"
  by (auto simp: keeps_nodes_def create_document_def keeps_concepts_refl keeps_entities_refl
      keeps_concepts_same keeps_entities_same split: if_splits)

text \<open>What a single ingestion without the clear flag does to the nodes, and what any
  ingestion does to the count of clears.\<close>

definition additive :: "('s \<Rightarrow> bool \<Rightarrow> graph \<Rightarrow> bool \<times> graph) \<Rightarrow> bool" where
  "additive ing =
     (\<forall>s g. keeps_nodes g (snd (ing s False g)) \<and> clears (snd (ing s False g)) = clears g)"

definition clears_once :: "('s \<Rightarrow> bool \<Rightarrow> graph \<Rightarrow> bool \<times> graph) \<Rightarrow> bool" where
  "clears_once ing = (\<forall>s c g. clears (snd (ing s c g)) \<le> clears g + 1)"

lemma ingestUrl_additive: "additive (ingestUrl ev)"
proof -
  have "keeps_nodes g (snd (ingestUrl ev u False g)) \<and> clears (snd (ingestUrl ev u False g)) = clears g"
    for u g
  proof (cases "fst (ingestUrl ev u False g)")
    case True
    then have i: "ingestUrl ev u False g = (True, snd (ingestUrl ev u False g))"
      by (simp add: prod_eq_iff)
    from ingestUrl_True [OF i] obtain g2 where
      g2: "create_document (url_document u) g = Some g2" and
      g': "snd (ingestUrl ev u False g) =
            createConceptRelationships (map as_candidate (extractConcepts (nlp_of ev) (page_text u)))
              (fold (store_concept (doc_id (url_document u)))
                 (extractConcepts (nlp_of ev) (page_text u)) g2)"
      by auto
    let ?g3 = "fold (store_concept (doc_id (url_document u)))
                 (extractConcepts (nlp_of ev) (page_text u)) g2"
    have "keeps_nodes g g2" using g2 by (rule keeps_nodes_create_document)
    moreover have "keeps_nodes g2 ?g3" by (rule keeps_nodes_fold_store)
    moreover have "keeps_nodes ?g3 (snd (ingestUrl ev u False g))"
      unfolding g' by (rule keeps_nodes_same) (simp_all add: frame)
    ultimately have "keeps_nodes g (snd (ingestUrl ev u False g))"
      using keeps_nodes_trans by blast
    moreover have "clears (snd (ingestUrl ev u False g)) = clears g"
      unfolding g' using g2 by (simp add: frame)
    ultimately show ?thesis by blast
  next
    case False
    then have "snd (ingestUrl ev u False g) = g"
      by (auto simp: ingestUrl_def Let_def split: option.splits if_splits)
    then show ?thesis by (simp add: keeps_nodes_refl)
  qed
  then show ?thesis by (simp add: additive_def)
qed

lemma ingestUrl_clears_once: "clears_once (ingestUrl ev)"
proof -
  have "clears (snd (ingestUrl ev u c g)) \<le> clears g + 1" for u c g
  proof (cases "fst (ingestUrl ev u c g)")
    case True
    then have i: "ingestUrl ev u c g = (True, snd (ingestUrl ev u c g))"
      by (simp add: prod_eq_iff)
    from ingestUrl_True [OF i] obtain g2 where
      g2: "create_document (url_document u) (if c then clear_graph g else g) = Some g2" and
      g': "snd (ingestUrl ev u c g) =
            createConceptRelationships (map as_candidate (extractConcepts (nlp_of ev) (page_text u)))
              (fold (store_concept (doc_id (url_document u)))
                 (extractConcepts (nlp_of ev) (page_text u)) g2)"
      by auto
    have "clears g2 = clears (if c then clear_graph g else g)" using g2 by (rule frame)
    then show ?thesis unfolding g' by (simp add: frame)
  next
    case False
    then have "snd (ingestUrl ev u c g) = g \<or> snd (ingestUrl ev u c g) = clear_graph g"
      by (auto simp: ingestUrl_def Let_def split: option.splits if_splits)
    then show ?thesis by (auto simp: frame)
  qed
  then show ?thesis by (simp add: clears_once_def)
qed


text \<open>The outcomes of \<open>ingestFile\<close>: the file is refused before anything is written; the
  document id is taken, after the optional clear; or the document is created and nodes
  and edges are added to it.\<close>

lemma ingestFile_outcomes:
  "ingestFile ev f c g = (False, g)
   \<or> ingestFile ev f c g = (False, if c then clear_graph g else g)
   \<or> (\<exists>d g2 g5. create_document d (if c then clear_graph g else g) = Some g2
        \<and> ingestFile ev f c g = (True, g5)
        \<and> keeps_nodes g2 g5 \<and> clears g5 = clears g2)"
proof (cases "f_stat f")
  case None
  then show ?thesis by (simp add: ingestFile_def)
next
  case (Some sz)
  show ?thesis
  proof (cases "sz > maxFileSize ev \<or> f_read f = None")
    case True
    then show ?thesis using Some by (auto simp: ingestFile_def)
  next
    case False
    then obtain content where content: "f_read f = Some content" by auto
    let ?g1 = "if c then clear_graph g else g"
    let ?d = "\<lparr>doc_id = f_name f @ ''_'' @ f_stamp f, doc_name = f_name f,
                doc_content = substring 0 1000 content, doc_type = ''file'', doc_size = sz\<rparr>"
    show ?thesis
    proof (cases "create_document ?d ?g1")
      case None
      then have "ingestFile ev f c g = (False, ?g1)"
        using Some False content by (simp add: ingestFile_def Let_def)
      then show ?thesis by blast
    next
      case g2: (Some g2)
      define ents where "ents = extracted_entities (extractEntitiesWithLLM ev content)"
      define g3 where "g3 = fold (store_entity (doc_id ?d)) ents g2"
      obtain g5 where g5: "ingestFile ev f c g = (True, g5)"
        "documents g5 = documents g3 \<and> concepts g5 = concepts g3 \<and> entities g5 = entities g3
         \<and> clears g5 = clears g3"
        using Some False content g2 unfolding ents_def g3_def
        by (auto simp: ingestFile_def Let_def frame split: option.splits list.splits)
      have "keeps_nodes g2 g3" unfolding g3_def by (rule keeps_nodes_fold_store_entity)
      moreover have "keeps_nodes g3 g5" using g5(2) by (simp add: keeps_nodes_same)
      ultimately have "keeps_nodes g2 g5" by (rule keeps_nodes_trans)
      moreover have "clears g5 = clears g2" using g5(2) by (simp add: g3_def frame)
      ultimately show ?thesis using g2 g5(1) by blast
    qed
  qed
qed

lemma ingestFile_additive: "additive (ingestFile ev)"
proof -
  have "keeps_nodes g (snd (ingestFile ev f False g))
      \<and> clears (snd (ingestFile ev f False g)) = clears g" for f g
    using ingestFile_outcomes [of ev f False g]
  proof (elim disjE exE conjE)
    fix d g2 g5
    assume a: "create_document d (if False then clear_graph g else g) = Some g2"
      "ingestFile ev f False g = (True, g5)" "keeps_nodes g2 g5" "clears g5 = clears g2"
    then have "keeps_nodes g g2" by (simp add: keeps_nodes_create_document)
    then have "keeps_nodes g g5" using a(3) by (rule keeps_nodes_trans)
    moreover have "clears g5 = clears g" using a frame_create_document(7) [of d g g2] by simp
    ultimately show ?thesis using a by simp
  qed (simp_all add: keeps_nodes_refl)
  then show ?thesis by (simp add: additive_def)
qed

lemma ingestFile_clears_once: "clears_once (ingestFile ev)"
proof -
  have "clears (snd (ingestFile ev f c g)) \<le> clears g + 1" for f c g
    using ingestFile_outcomes [of ev f c g]
  proof (elim disjE exE conjE)
    fix d g2 g5
    assume a: "create_document d (if c then clear_graph g else g) = Some g2"
      "ingestFile ev f c g = (True, g5)" "clears g5 = clears g2"
    have "clears g2 = clears (if c then clear_graph g else g)" using a(1) by (rule frame)
    then show ?thesis using a by (simp add: frame)
  qed (auto simp: frame)
  then show ?thesis by (simp add: clears_once_def)
qed

lemma ingestFile_legacy_outcomes:
  "ingestFile_legacy ev f c g = (False, g)
   \<or> ingestFile_legacy ev f c g = (False, if c then clear_graph g else g)
   \<or> (\<exists>d g2 g5. create_document d (if c then clear_graph g else g) = Some g2
        \<and> ingestFile_legacy ev f c g = (True, g5)
        \<and> keeps_nodes g2 g5 \<and> clears g5 = clears g2)"
proof (cases "f_stat f")
  case None
  then show ?thesis by (simp add: ingestFile_legacy_def)
next
  case (Some sz)
  show ?thesis
  proof (cases "sz > maxFileSize ev \<or> f_read f = None")
    case True
    then show ?thesis using Some by (auto simp: ingestFile_legacy_def)
  next
    case False
    then obtain content where content: "f_read f = Some content" by auto
    let ?g1 = "if c then clear_graph g else g"
    let ?d = "\<lparr>doc_id = f_name f @ ''_'' @ f_stamp f, doc_name = f_name f,
                doc_content = substring 0 1000 content, doc_type = ''file'', doc_size = sz\<rparr>"
    let ?cs = "extractConcepts (nlp_of ev) content"
    show ?thesis
    proof (cases "create_document ?d ?g1")
      case None
      then have "ingestFile_legacy ev f c g = (False, ?g1)"
        using Some False content by (simp add: ingestFile_legacy_def Let_def)
      then show ?thesis by blast
    next
      case g2: (Some g2)
      let ?g3 = "fold (store_concept (doc_id ?d)) ?cs g2"
      let ?g5 = "createConceptRelationships (map as_candidate ?cs) ?g3"
      have r: "ingestFile_legacy ev f c g = (True, ?g5)"
        using Some False content g2 by (simp add: ingestFile_legacy_def Let_def)
      have "keeps_nodes g2 ?g3" by (rule keeps_nodes_fold_store)
      moreover have "keeps_nodes ?g3 ?g5" by (rule keeps_nodes_same) (simp_all add: frame)
      ultimately have "keeps_nodes g2 ?g5" by (rule keeps_nodes_trans)
      moreover have "clears ?g5 = clears g2" by (simp add: frame)
      ultimately show ?thesis using g2 r by blast
    qed
  qed
qed

lemma ingestFile_legacy_additive: "additive (ingestFile_legacy ev)"
proof -
  have "keeps_nodes g (snd (ingestFile_legacy ev f False g))
      \<and> clears (snd (ingestFile_legacy ev f False g)) = clears g" for f g
    using ingestFile_legacy_outcomes [of ev f False g]
  proof (elim disjE exE conjE)
    fix d g2 g5
    assume a: "create_document d (if False then clear_graph g else g) = Some g2"
      "ingestFile_legacy ev f False g = (True, g5)" "keeps_nodes g2 g5" "clears g5 = clears g2"
    then have "keeps_nodes g g2" by (simp add: keeps_nodes_create_document)
    then have "keeps_nodes g g5" using a(3) by (rule keeps_nodes_trans)
    moreover have "clears g5 = clears g" using a frame_create_document(7) [of d g g2] by simp
    ultimately show ?thesis using a by simp
  qed (simp_all add: keeps_nodes_refl)
  then show ?thesis by (simp add: additive_def)
qed

lemma ingestFile_legacy_clears_once: "clears_once (ingestFile_legacy ev)"
proof -
  have "clears (snd (ingestFile_legacy ev f c g)) \<le> clears g + 1" for f c g
    using ingestFile_legacy_outcomes [of ev f c g]
  proof (elim disjE exE conjE)
    fix d g2 g5
    assume a: "create_document d (if c then clear_graph g else g) = Some g2"
      "ingestFile_legacy ev f c g = (True, g5)" "clears g5 = clears g2"
    have "clears g2 = clears (if c then clear_graph g else g)" using a(1) by (rule frame)
    then show ?thesis using a by (simp add: frame)
  qed (auto simp: frame)
  then show ?thesis by (simp add: clears_once_def)
qed

subsection \<open>The loop over the sources\<close>

lemma ingest_each_append:
  "ingest_each ing clear (xs @ ys) st = ingest_each ing clear ys (ingest_each ing clear xs st)"
proof (induction xs arbitrary: st)
  case Nil
  then show ?case by simp
next
  case (Cons x xs)
  obtain n b g where st: "st = (n, b, g)" by (cases st) auto
  show ?case by (simp add: st Cons.IH split: prod.splits)
qed

lemma ingest_each_later:
  assumes "additive ing"
  shows "keeps_nodes g (snd (snd (ingest_each ing clear ss (n, False, g))))
     \<and> clears (snd (snd (ingest_each ing clear ss (n, False, g)))) = clears g
     \<and> fst (snd (ingest_each ing clear ss (n, False, g))) = False"
proof (induction ss arbitrary: n g)
  case Nil
  then show ?case by (simp add: keeps_nodes_refl)
next
  case (Cons s ss)
  obtain ok g' where r: "ing s False g = (ok, g')" by (cases "ing s False g") auto
  have k: "keeps_nodes g g'" "clears g' = clears g"
    using assms r unfolding additive_def by (metis snd_conv)+
  let ?m = "if ok then n + 1 else n"
  have e: "ingest_each ing clear (s # ss) (n, False, g) = ingest_each ing clear ss (?m, False, g')"
    by (simp add: r)
  from Cons.IH [where n = "?m" and g = g'] k show ?case
    unfolding e using keeps_nodes_trans by auto
qed

lemma ingest_each_first:
  assumes "additive ing" and "clears_once ing"
  shows "clears (snd (snd (ingest_each ing clear ss (n, b, g)))) \<le> clears g + 1
     \<and> (ss \<noteq> [] \<longrightarrow> fst (snd (ingest_each ing clear ss (n, b, g))) = False)"
proof (cases ss)
  case Nil
  then show ?thesis by simp
next
  case (Cons s ss')
  obtain ok g' where r: "ing s (clear \<and> b) g = (ok, g')" by (cases "ing s (clear \<and> b) g") auto
  have c: "clears g' \<le> clears g + 1"
    using assms(2) r unfolding clears_once_def by (metis snd_conv)
  let ?m = "if ok then n + 1 else n"
  have e: "ingest_each ing clear ss (n, b, g) = ingest_each ing clear ss' (?m, False, g')"
    by (simp add: Cons r)
  from ingest_each_later [OF assms(1), where g = g' and ss = ss' and n = "?m" and clear = clear]
    c show ?thesis
    unfolding e using Cons by auto
qed


lemma batch_generic:
  assumes f: "additive ingF" "clears_once ingF" and u: "additive ingU" "clears_once ingU"
    and prefix: "fs2 = [] \<or> us1 = []" and nonempty: "fs1 \<noteq> [] \<or> us1 \<noteq> []"
  shows "clears (snd (snd (ingest_each ingU clear us1 (ingest_each ingF clear fs1 (0, True, g)))))
           \<le> clears g + 1
     \<and> clears (snd (snd (ingest_each ingU clear (us1 @ us2)
                 (ingest_each ingF clear (fs1 @ fs2) (0, True, g)))))
         = clears (snd (snd (ingest_each ingU clear us1 (ingest_each ingF clear fs1 (0, True, g)))))
     \<and> keeps_nodes
          (snd (snd (ingest_each ingU clear us1 (ingest_each ingF clear fs1 (0, True, g)))))
          (snd (snd (ingest_each ingU clear (us1 @ us2)
                 (ingest_each ingF clear (fs1 @ fs2) (0, True, g)))))"
proof -
  obtain na ba ga where a: "ingest_each ingF clear fs1 (0, True, g) = (na, ba, ga)"
    by (cases "ingest_each ingF clear fs1 (0, True, g)") auto
  obtain n1 b1 g1 where s1: "ingest_each ingU clear us1 (na, ba, ga) = (n1, b1, g1)"
    by (cases "ingest_each ingU clear us1 (na, ba, ga)") auto
  have fa: "clears ga \<le> clears g + 1" "fs1 \<noteq> [] \<longrightarrow> ba = False"
    using ingest_each_first [OF f, of clear fs1 0 True g] a by auto
  have fa0: "fs1 = [] \<longrightarrow> ga = g \<and> ba = True" using a by auto
  have c1: "clears g1 \<le> clears g + 1"
  proof (cases "fs1 = []")
    case True
    then show ?thesis
      using ingest_each_first [OF u, of clear us1 na ba ga] s1 fa0 by auto
  next
    case False
    then have "ba = False" using fa by simp
    then have "clears g1 = clears ga"
      using ingest_each_later [OF u(1), of ga clear us1 na] s1 by auto
    then show ?thesis using fa by simp
  qed
  have b1: "b1 = False"
  proof (cases "us1 = []")
    case True
    then show ?thesis using s1 fa nonempty by auto
  next
    case False
    then show ?thesis using ingest_each_first [OF u, of clear us1 na ba ga] s1 by auto
  qed
  have final: "ingest_each ingU clear (us1 @ us2) (ingest_each ingF clear (fs1 @ fs2) (0, True, g))
      = ingest_each ingU clear us2 (ingest_each ingF clear fs2 (n1, b1, g1))"
  proof (cases "us1 = []")
    case True
    then show ?thesis using a s1 by (simp add: ingest_each_append)
  next
    case False
    then have "fs2 = []" using prefix by simp
    then show ?thesis using a s1 by (simp add: ingest_each_append)
  qed
  obtain nb bb gb where b: "ingest_each ingF clear fs2 (n1, False, g1) = (nb, bb, gb)"
    by (cases "ingest_each ingF clear fs2 (n1, False, g1)") auto
  have kb: "keeps_nodes g1 gb" "clears gb = clears g1" "bb = False"
    using ingest_each_later [OF f(1), of g1 clear fs2 n1] b by auto
  obtain n2 b2 g2 where s2: "ingest_each ingU clear us2 (nb, False, gb) = (n2, b2, g2)"
    by (cases "ingest_each ingU clear us2 (nb, False, gb)") auto
  have k2: "keeps_nodes gb g2" "clears g2 = clears gb"
    using ingest_each_later [OF u(1), of gb clear us2 nb] s2 by auto
  have "keeps_nodes g1 g2" using kb(1) k2(1) by (rule keeps_nodes_trans)
  then show ?thesis using c1 kb k2 by (simp add: a s1 final b1 b s2)
qed


definition sample_file2 :: file_source where
  "sample_file2 = \<lparr>f_name = ''more.txt'', f_stat = Some 30,
     f_read = Some ''Forest of trees; forest paths.'', f_stamp = ''2''\<rparr>"

lemma sample_batch:
  "clears (snd (snd (ingest_action sample_env [sample_file ''1''] [] True
      (snd (ingestUrl sample_env (sample_page ''0'') False empty_graph))))) = 1"
  "map doc_name (documents (snd (ingestUrl sample_env (sample_page ''0'') False empty_graph)))
     = [''http://a.example'']"
  "map doc_name (documents (snd (snd (ingest_action sample_env [sample_file ''1''] [] True
      (snd (ingestUrl sample_env (sample_page ''0'') False empty_graph))))))
     = [''notes.txt'']"
  "map doc_name (documents (snd (snd (ingest_action sample_env
      ([sample_file ''1''] @ [sample_file2]) ([] @ [sample_page ''3'']) True
      (snd (ingestUrl sample_env (sample_page ''0'') False empty_graph))))))
     = [''notes.txt'', ''more.txt'', ''http://a.example'']"
  by code_simp+


section \<open>The size ceiling\<close>

definition node_count :: "graph \<Rightarrow> nat" where
  "node_count g = length (documents g) + length (concepts g) + length (entities g)"

definition edge_count :: "graph \<Rightarrow> nat" where
  "edge_count g = length (contains g) + length (related g) + length (entity_rels g)"

text \<open>The command-line variant with the size budget refuses a source that would take the
  running total over the ceiling, and leaves its state as it was.\<close>

lemma checkSizeLimit_iff: "checkSizeLimit k newSize \<longleftrightarrow> totalSize k + newSize \<le> maxSize k"
  by (auto simp: checkSizeLimit_def)

lemma ingestFile_cli_rejects:
  "f_stat f = Some sz \<Longrightarrow> maxSize k < totalSize k + sz \<Longrightarrow> ingestFile_cli k f = (Inr None, k)"
  by (simp add: ingestFile_cli_def checkSizeLimit_def)

lemma ingestUrl_cli_rejects:
  "u_body u = Some content \<Longrightarrow> maxSize k < totalSize k + int (length content) \<Longrightarrow>
     ingestUrl_cli k u = (Inr None, k)"
  by (simp add: ingestUrl_cli_def checkSizeLimit_def)

lemma rejected_counts_unchanged:
  assumes "f_stat f = Some sz" and "maxSize k < totalSize k + sz"
  shows "node_count (store (snd (ingestFile_cli k f))) = node_count (store k)"
    and "edge_count (store (snd (ingestFile_cli k f))) = edge_count (store k)"
    and "totalSize (snd (ingestFile_cli k f)) = totalSize k"
  using ingestFile_cli_rejects [OF assms] by simp_all

text \<open>\<open>ingestFile\<close> of knowledge-graph.js refuses a file that is larger than the ceiling
  by itself, before anything is written or cleared.\<close>

lemma ingestFile_rejects:
  "f_stat f = Some sz \<Longrightarrow> maxFileSize ev < sz \<Longrightarrow> ingestFile ev f clear g = (False, g)"
  by (simp add: ingestFile_def)

lemma ingestFile_accepts:
  assumes st: "f_stat f = Some sz" and le: "sz \<le> maxFileSize ev" and rd: "f_read f = Some content"
    and fresh: "f_name f @ ''_'' @ f_stamp f \<notin> doc_id ` set (documents g)"
  shows "fst (ingestFile ev f False g)"
    and "documents (snd (ingestFile ev f False g)) = documents g @
           [\<lparr>doc_id = f_name f @ ''_'' @ f_stamp f, doc_name = f_name f,
             doc_content = substring 0 1000 content, doc_type = ''file'', doc_size = sz\<rparr>]"
proof -
  define d where "d = \<lparr>doc_id = f_name f @ ''_'' @ f_stamp f, doc_name = f_name f,
             doc_content = substring 0 1000 content, doc_type = ''file'', doc_size = sz\<rparr>"
  have "create_document d g = Some (g\<lparr>documents := documents g @ [d]\<rparr>)"
    using fresh by (simp add: create_document_def d_def)
  then have r: "\<exists>g5. ingestFile ev f False g = (True, g5) \<and> documents g5 = documents g @ [d]"
    using st le rd unfolding ingestFile_def d_def
    by (simp add: Let_def frame split: option.splits list.splits)
  then show "fst (ingestFile ev f False g)" by auto
  from r show "documents (snd (ingestFile ev f False g)) = documents g @
           [\<lparr>doc_id = f_name f @ ''_'' @ f_stamp f, doc_name = f_name f,
             doc_content = substring 0 1000 content, doc_type = ''file'', doc_size = sz\<rparr>]"
    unfolding d_def by auto
qed

text \<open>
  C2. \<open>ingestFile\<close> of knowledge-graph.js compares each file alone with the ceiling and
  keeps no running total: with the default ceiling of 100 MB, two files of 60 MB each
  are both accepted into the same graph, whatever their text, although the second takes
  the corpus to 120 MB. The command-line variant with the size budget refuses the second
  one (\<open>ingestFile_cli_rejects\<close>).
\<close>

theorem ingestFile_ignores_total:
  "\<forall>text1 text2.
     fst (ingestFile sample_env
            \<lparr>f_name = ''a.txt'', f_stat = Some 62914560, f_read = Some text1, f_stamp = ''1''\<rparr>
            False empty_graph)
     \<and> fst (ingestFile sample_env
            \<lparr>f_name = ''b.txt'', f_stat = Some 62914560, f_read = Some text2, f_stamp = ''2''\<rparr>
            False
            (snd (ingestFile sample_env
               \<lparr>f_name = ''a.txt'', f_stat = Some 62914560, f_read = Some text1, f_stamp = ''1''\<rparr>
               False empty_graph)))
     \<and> map doc_size (documents
          (snd (ingestFile sample_env
            \<lparr>f_name = ''b.txt'', f_stat = Some 62914560, f_read = Some text2, f_stamp = ''2''\<rparr>
            False
            (snd (ingestFile sample_env
               \<lparr>f_name = ''a.txt'', f_stat = Some 62914560, f_read = Some text1, f_stamp = ''1''\<rparr>
               False empty_graph)))))
         = [62914560, 62914560]
     \<and> maxFileSize sample_env = 100 * 1024 * 1024
     \<and> maxFileSize sample_env < 62914560 + 62914560"
proof (intro allI)
  fix text1 text2
  define f1 where "f1 = \<lparr>f_name = ''a.txt'', f_stat = Some 62914560, f_read = Some text1,
    f_stamp = ''1''\<rparr>"
  define f2 where "f2 = \<lparr>f_name = ''b.txt'', f_stat = Some 62914560, f_read = Some text2,
    f_stamp = ''2''\<rparr>"
  define g1 where "g1 = snd (ingestFile sample_env f1 False empty_graph)"
  have m: "maxFileSize sample_env = 104857600" by (simp add: sample_env_def)
  have a: "fst (ingestFile sample_env f1 False empty_graph)"
    "map doc_id (documents g1) = [''a.txt_1'']" "map doc_size (documents g1) = [62914560]"
    using ingestFile_accepts [of f1 62914560 sample_env text1 empty_graph]
    by (simp_all add: m empty_graph_def f1_def g1_def)
  have "f_name f2 @ ''_'' @ f_stamp f2 \<notin> doc_id ` set (documents g1)"
    using a(2) by (simp add: f2_def flip: set_map)
  then have b: "fst (ingestFile sample_env f2 False g1)"
    "map doc_size (documents (snd (ingestFile sample_env f2 False g1))) = [62914560, 62914560]"
    using ingestFile_accepts [of f2 62914560 sample_env text2 g1] a(3)
    by (simp_all add: m f2_def)
  show "fst (ingestFile sample_env
            \<lparr>f_name = ''a.txt'', f_stat = Some 62914560, f_read = Some text1, f_stamp = ''1''\<rparr>
            False empty_graph)
     \<and> fst (ingestFile sample_env
            \<lparr>f_name = ''b.txt'', f_stat = Some 62914560, f_read = Some text2, f_stamp = ''2''\<rparr>
            False
            (snd (ingestFile sample_env
               \<lparr>f_name = ''a.txt'', f_stat = Some 62914560, f_read = Some text1, f_stamp = ''1''\<rparr>
               False empty_graph)))
     \<and> map doc_size (documents
          (snd (ingestFile sample_env
            \<lparr>f_name = ''b.txt'', f_stat = Some 62914560, f_read = Some text2, f_stamp = ''2''\<rparr>
            False
            (snd (ingestFile sample_env
               \<lparr>f_name = ''a.txt'', f_stat = Some 62914560, f_read = Some text1, f_stamp = ''1''\<rparr>
               False empty_graph)))))
         = [62914560, 62914560]
     \<and> maxFileSize sample_env = 100 * 1024 * 1024
     \<and> maxFileSize sample_env < 62914560 + 62914560"
    using a(1) b unfolding g1_def f1_def f2_def by (simp add: m)
qed

text \<open>With the same two files the command-line variant accepts the first and refuses the
  second, leaving the graph as it was.\<close>

lemma cli_refuses_second:
  assumes "totalSize k = 62914560" and "maxSize k = 104857600" and "f_stat f = Some 62914560"
  shows "ingestFile_cli k f = (Inr None, k)"
  using ingestFile_cli_rejects [of f 62914560 k] assms by simp

section \<open>Queries\<close>

text \<open>
  A query reads the store through statements that may fail. A computation returns the
  store calls it made, in order, and either the message of the error that ended it
  (\<open>Inl\<close>) or its value.
\<close>

datatype store_call =
  EntityQuery "string list"
  | ConceptQuery "string list"
  | DocQuery "string list"
  | CommunitiesQuery
  | CliConceptQuery "string list"
  | CliDocQuery "string list"

type_synonym 'a io = "store_call list \<times> (string + 'a)"

definition ret :: "'a \<Rightarrow> 'a io" where
  "ret x = ([], Inr x)"

definition throw :: "string \<Rightarrow> 'a io" where
  "throw m = ([], Inl m)"

text \<open>\<open>await session.run(...)\<close>: the call is made, and its outcome is the value or the
  error.\<close>

definition run :: "store_call \<Rightarrow> string + 'a \<Rightarrow> 'a io" where
  "run c outcome = ([c], outcome)"

definition bind :: "'a io \<Rightarrow> ('a \<Rightarrow> 'b io) \<Rightarrow> 'b io" where
  "bind m f =
     (case m of
        (cs, Inl e) \<Rightarrow> (cs, Inl e)
      | (cs, Inr x) \<Rightarrow> (case f x of (cs', r) \<Rightarrow> (cs @ cs', r)))"

text \<open>\<open>try { body } catch (error) { handler(error.message) }\<close>\<close>

definition try_catch :: "'a io \<Rightarrow> (string \<Rightarrow> 'a io) \<Rightarrow> 'a io" where
  "try_catch body handler =
     (case body of
        (cs, Inl e) \<Rightarrow> (case handler e of (cs', r) \<Rightarrow> (cs @ cs', r))
      | (cs, Inr x) \<Rightarrow> (cs, Inr x))"

subsection \<open>knowledge-graph.js\<close>

record entity_row =
  row_name :: string
  row_type :: string
  row_description :: string
  row_connected :: "string list"

record doc_row =
  dr_name :: string
  dr_content :: string
  dr_type :: string
  dr_entities :: "string list"
  dr_relevance :: nat

record community_row =
  cm_name :: community
  cm_size :: nat
  cm_entities :: "string list"

text \<open>The session, as the answers of the store to the statements of the query path.\<close>

record session =
  entityQuery :: "string list \<Rightarrow> string + entity_row list"
  conceptQuery :: "string list \<Rightarrow> string + concept list"
  docQuery :: "string list \<Rightarrow> string + doc_row list"
  communitiesQuery :: "string + community_row list"

text \<open>The language collaborator, whether an API key is set, and the summarising service
  (\<open>Inl\<close>: the request fails).\<close>

record query_env =
  qe_nlp :: nlp
  qe_api_key :: bool
  qe_summarize :: "string \<Rightarrow> community_row list \<Rightarrow> string + string"

text \<open>
  What a query returns: a text (a fixed message, an error message or the text of the
  summarising service), or the text that the source formats from the data given here
  (the question, the first five entities or concepts and the documents; the communities).
\<close>

datatype reply =
  Text string
  | LocalResponse string "entity_row list" "doc_row list"
  | LegacyResponse string "concept list" "doc_row list"
  | GlobalOverview "community_row list"

definition key_terms :: "nlp \<Rightarrow> string \<Rightarrow> string list" where
  "key_terms n question =
     map (stem n)
       (filter (\<lambda>token. token \<notin> set (stopwords n) \<and> length token > 2)
          (tokenize n (toLowerCase question)))"

definition need_specific :: string where
  "need_specific = ''Please provide a more specific question with meaningful terms.''"

definition concept_as_entity :: "concept \<Rightarrow> entity_row" where
  "concept_as_entity c =
     \<lparr>row_name = name c, row_type = ''CONCEPT'', row_description = [], row_connected = []\<rparr>"

definition find_documents :: "session \<Rightarrow> string \<Rightarrow> entity_row list \<Rightarrow> reply io" where
  "find_documents s question relevantEntities =
     bind (run (DocQuery (map row_name relevantEntities))
             (docQuery s (map row_name relevantEntities)))
       (\<lambda>relevantDocs. ret (LocalResponse question (take 5 relevantEntities) relevantDocs))"

definition localSearch_try :: "nlp \<Rightarrow> session \<Rightarrow> string \<Rightarrow> reply io" where
  "localSearch_try n s question =
     (let keyTerms = key_terms n question in
      if keyTerms = [] then ret (Text need_specific)
      else
        bind (run (EntityQuery keyTerms) (entityQuery s keyTerms))
          (\<lambda>relevantEntities.
             if relevantEntities = [] then
               bind (run (ConceptQuery keyTerms) (conceptQuery s keyTerms))
                 (\<lambda>relevantConcepts.
                    if relevantConcepts = [] then
                      ret (Text ''No relevant concepts or entities found in the knowledge graph for your question.'')
                    else find_documents s question (map concept_as_entity relevantConcepts))
             else find_documents s question relevantEntities))"

definition localSearch :: "nlp \<Rightarrow> session \<Rightarrow> string \<Rightarrow> reply io" where
  "localSearch n s question =
     try_catch (localSearch_try n s question)
       (\<lambda>message. ret (Text (''Local search error: '' @ message)))"

definition globalSearch_try :: "query_env \<Rightarrow> session \<Rightarrow> string \<Rightarrow> reply io" where
  "globalSearch_try ev s question =
     bind (run CommunitiesQuery (communitiesQuery s))
       (\<lambda>communities.
          if qe_api_key ev \<and> communities \<noteq> [] then
            (case qe_summarize ev question communities of
               Inl message \<Rightarrow> throw message
             | Inr answer \<Rightarrow> ret (Text answer))
          else ret (GlobalOverview communities))"

definition globalSearch :: "query_env \<Rightarrow> session \<Rightarrow> string \<Rightarrow> reply io" where
  "globalSearch ev s question =
     try_catch (globalSearch_try ev s question)
       (\<lambda>message. ret (Text (''Global search error: '' @ message)))"

definition queryGraph :: "query_env \<Rightarrow> session \<Rightarrow> string \<Rightarrow> string \<Rightarrow> reply io" where
  "queryGraph ev s question mode =
     try_catch
       (let mode' = (if mode = ''auto'' then determineSearchMode question else mode) in
        if mode' = ''global'' then globalSearch ev s question
        else localSearch (qe_nlp ev) s question)
       (\<lambda>message. ret (Text (''Error processing question: '' @ message)))"

text \<open>The first version of \<open>queryGraph\<close>, kept in the second half of the file.\<close>

definition queryGraph_legacy_try :: "nlp \<Rightarrow> session \<Rightarrow> string \<Rightarrow> reply io" where
  "queryGraph_legacy_try n s question =
     (let keyTerms = key_terms n question in
      if keyTerms = [] then ret (Text need_specific)
      else
        bind (run (ConceptQuery keyTerms) (conceptQuery s keyTerms))
          (\<lambda>relevantConcepts.
             if relevantConcepts = [] then
               ret (Text ''No relevant concepts found in the knowledge graph for your question.'')
             else
               bind (run (DocQuery (map name relevantConcepts))
                       (docQuery s (map name relevantConcepts)))
                 (\<lambda>relevantDocs.
                    ret (LegacyResponse question (take 5 relevantConcepts) relevantDocs))))"

definition queryGraph_legacy :: "nlp \<Rightarrow> session \<Rightarrow> string \<Rightarrow> reply io" where
  "queryGraph_legacy n s question =
     try_catch (queryGraph_legacy_try n s question)
       (\<lambda>message. ret (Text (''Error querying knowledge graph: '' @ message)))"

subsection \<open>The command-line variant with the size budget\<close>

record cli_doc_row =
  cd_name :: string
  cd_content :: string
  cd_type :: string
  cd_conceptCount :: nat
  cd_matched :: "string list"

record cli_session =
  cli_conceptQuery :: "string list \<Rightarrow> string + concept list"
  cli_docQuery :: "string list \<Rightarrow> string + cli_doc_row list"

record cli_doc =
  d_name :: string
  d_type :: string
  d_concepts :: "string list"

record cli_answer =
  answer :: string
  a_concepts :: "concept list"
  a_documents :: "cli_doc list"

definition queryWords :: "string \<Rightarrow> string list" where
  "queryWords question = filter (\<lambda>word. length word > 2) (split_ws (toLowerCase question))"

text \<open>The score of a sentence: 2 for every query word and 1 for every relevant concept
  that the lower-cased sentence contains, times 1.5 when that is more than 2.\<close>

definition raw_score :: "string list \<Rightarrow> concept list \<Rightarrow> string \<Rightarrow> nat" where
  "raw_score qw rc sentence =
     2 * length (filter (\<lambda>word. str_includes (toLowerCase sentence) word) qw)
     + length (filter (\<lambda>c. str_includes (toLowerCase sentence) (name c)) rc)"

definition sentence_score :: "string list \<Rightarrow> concept list \<Rightarrow> string \<Rightarrow> rat" where
  "sentence_score qw rc sentence =
     (if raw_score qw rc sentence > 2 then of_nat (raw_score qw rc sentence) * (3 / 2)
      else of_nat (raw_score qw rc sentence))"

definition consider_sentence ::
  "string list \<Rightarrow> concept list \<Rightarrow> rat \<times> string \<Rightarrow> string \<Rightarrow> rat \<times> string" where
  "consider_sentence qw rc best sentence =
     (if sentence_score qw rc sentence > fst best \<and> length (trim sentence) > 30
      then (sentence_score qw rc sentence, trim sentence)
      else best)"

definition sentences_of :: "string \<Rightarrow> string list" where
  "sentences_of content = filter (\<lambda>s. length (trim s) > 20) (split_sentences content)"

definition scan_document ::
  "string list \<Rightarrow> concept list \<Rightarrow> rat \<times> string \<Rightarrow> cli_doc_row \<Rightarrow> rat \<times> string" where
  "scan_document qw rc best record =
     foldl (consider_sentence qw rc) best (sentences_of (cd_content record))"

definition best_excerpt :: "string list \<Rightarrow> concept list \<Rightarrow> cli_doc_row list \<Rightarrow> string" where
  "best_excerpt qw rc records = snd (foldl (scan_document qw rc) (0, []) records)"

definition error_answer :: cli_answer where
  "error_answer = \<lparr>answer = ''Error occurred while searching the knowledge graph.'',
     a_concepts = [], a_documents = []\<rparr>"

definition queryGraph_cli_try :: "cli_session \<Rightarrow> string \<Rightarrow> cli_answer io" where
  "queryGraph_cli_try s question =
     bind (run (CliConceptQuery (queryWords question)) (cli_conceptQuery s (queryWords question)))
       (\<lambda>relevantConcepts.
          if relevantConcepts = [] then
            ret \<lparr>answer = ''I couldn'' @ [CHR 0x27] @ ''t find any relevant concepts in the knowledge graph for your question.'',
                 a_concepts = [], a_documents = []\<rparr>
          else
            bind (run (CliDocQuery (map name relevantConcepts))
                    (cli_docQuery s (map name relevantConcepts)))
              (\<lambda>records.
                 if records = [] then
                   ret \<lparr>answer = ''No documents found containing the relevant concepts.'',
                        a_concepts = relevantConcepts, a_documents = []\<rparr>
                 else
                   (let bestAnswer = best_excerpt (queryWords question) relevantConcepts records;
                        conceptsList = join '', '' (map name (take 5 relevantConcepts));
                        finalAnswer =
                          (if bestAnswer \<noteq> [] then ''Based on your documents: '' @ bestAnswer
                           else ''Found relevant concepts ('' @ conceptsList
                                @ '') but couldn'' @ [CHR 0x27]
                                @ ''t extract a specific answer. Try rephrasing your question.'')
                    in ret \<lparr>answer = finalAnswer, a_concepts = relevantConcepts,
                            a_documents =
                              map (\<lambda>r. \<lparr>d_name = cd_name r, d_type = cd_type r,
                                         d_concepts = cd_matched r\<rparr>) records\<rparr>)))"

definition queryGraph_cli :: "cli_session \<Rightarrow> string \<Rightarrow> cli_answer io" where
  "queryGraph_cli s question =
     try_catch (queryGraph_cli_try s question) (\<lambda>message. ret error_answer)"

subsection \<open>Failures of the store\<close>

text \<open>The message with which the store answers a call, when it fails.\<close>

definition failed :: "session \<Rightarrow> store_call \<Rightarrow> string option" where
  "failed s c =
     (case c of
        EntityQuery terms \<Rightarrow> (case entityQuery s terms of Inl m \<Rightarrow> Some m | Inr _ \<Rightarrow> None)
      | ConceptQuery terms \<Rightarrow> (case conceptQuery s terms of Inl m \<Rightarrow> Some m | Inr _ \<Rightarrow> None)
      | DocQuery names \<Rightarrow> (case docQuery s names of Inl m \<Rightarrow> Some m | Inr _ \<Rightarrow> None)
      | CommunitiesQuery \<Rightarrow> (case communitiesQuery s of Inl m \<Rightarrow> Some m | Inr _ \<Rightarrow> None)
      | _ \<Rightarrow> None)"

definition cli_failed :: "cli_session \<Rightarrow> store_call \<Rightarrow> string option" where
  "cli_failed s c =
     (case c of
        CliConceptQuery ws \<Rightarrow> (case cli_conceptQuery s ws of Inl m \<Rightarrow> Some m | Inr _ \<Rightarrow> None)
      | CliDocQuery names \<Rightarrow> (case cli_docQuery s names of Inl m \<Rightarrow> Some m | Inr _ \<Rightarrow> None)
      | _ \<Rightarrow> None)"

text \<open>A computation stops at a failed call: when a call it made failed, it ended with the
  error of that call.\<close>

definition stops_at_failure :: "(store_call \<Rightarrow> string option) \<Rightarrow> 'a io \<Rightarrow> bool" where
  "stops_at_failure fl m = (\<forall>c \<in> set (fst m). \<forall>e. fl c = Some e \<longrightarrow> snd m = Inl e)"

lemma stops_ret: "stops_at_failure fl (ret x)"
  by (simp add: stops_at_failure_def ret_def)

lemma stops_throw: "stops_at_failure fl (throw e)"
  by (simp add: stops_at_failure_def throw_def)

lemma stops_run:
  "(\<And>e. fl c = Some e \<Longrightarrow> outcome = Inl e) \<Longrightarrow> stops_at_failure fl (run c outcome)"
  by (simp add: stops_at_failure_def run_def)

lemma stops_bind:
  assumes "stops_at_failure fl m" and "\<And>x. stops_at_failure fl (f x)"
  shows "stops_at_failure fl (bind m f)"
proof (cases m)
  case (Pair cs r)
  show ?thesis
  proof (cases r)
    case (Inl e)
    then show ?thesis using assms(1) Pair by (simp add: bind_def stops_at_failure_def)
  next
    case (Inr x)
    obtain cs' r' where fx: "f x = (cs', r')" by (cases "f x") auto
    have no: "\<forall>c \<in> set cs. fl c = None"
      using assms(1) Pair Inr by (fastforce simp: stops_at_failure_def)
    have "\<forall>c \<in> set cs'. \<forall>e. fl c = Some e \<longrightarrow> r' = Inl e"
      using assms(2) [of x] fx by (simp add: stops_at_failure_def)
    with no show ?thesis
      using Pair Inr fx by (auto simp: bind_def stops_at_failure_def)
  qed
qed

lemma try_catch_ret:
  "try_catch body (\<lambda>e. ret (h e)) =
     (fst body, Inr (case snd body of Inl e \<Rightarrow> h e | Inr x \<Rightarrow> x))"
  by (cases body) (auto simp: try_catch_def ret_def split: sum.splits)

lemma stops_find_documents: "stops_at_failure (failed s) (find_documents s q es)"
  unfolding find_documents_def
  by (intro stops_bind stops_run stops_ret) (simp add: failed_def split: sum.splits)

lemma stops_localSearch_try: "stops_at_failure (failed s) (localSearch_try n s q)"
proof -
  have e: "stops_at_failure (failed s) (run (EntityQuery t) (entityQuery s t))" for t
    by (rule stops_run) (simp add: failed_def split: sum.splits)
  have c: "stops_at_failure (failed s) (run (ConceptQuery t) (conceptQuery s t))" for t
    by (rule stops_run) (simp add: failed_def split: sum.splits)
  show ?thesis
    unfolding localSearch_try_def Let_def
    by (auto intro!: stops_bind stops_ret e c stops_find_documents)
qed

lemma stops_globalSearch_try: "stops_at_failure (failed s) (globalSearch_try ev s q)"
proof -
  have c: "stops_at_failure (failed s) (run CommunitiesQuery (communitiesQuery s))"
    by (rule stops_run) (simp add: failed_def split: sum.splits)
  show ?thesis
    unfolding globalSearch_try_def
    by (auto intro!: stops_bind stops_ret stops_throw c split: sum.splits)
qed

lemma stops_queryGraph_legacy_try: "stops_at_failure (failed s) (queryGraph_legacy_try n s q)"
proof -
  have c: "stops_at_failure (failed s) (run (ConceptQuery t) (conceptQuery s t))" for t
    by (rule stops_run) (simp add: failed_def split: sum.splits)
  have d: "stops_at_failure (failed s) (run (DocQuery t) (docQuery s t))" for t
    by (rule stops_run) (simp add: failed_def split: sum.splits)
  show ?thesis
    unfolding queryGraph_legacy_try_def Let_def
    by (auto intro!: stops_bind stops_ret c d)
qed

lemma stops_queryGraph_cli_try: "stops_at_failure (cli_failed s) (queryGraph_cli_try s q)"
proof -
  have c: "stops_at_failure (cli_failed s) (run (CliConceptQuery t) (cli_conceptQuery s t))" for t
    by (rule stops_run) (simp add: cli_failed_def split: sum.splits)
  have d: "stops_at_failure (cli_failed s) (run (CliDocQuery t) (cli_docQuery s t))" for t
    by (rule stops_run) (simp add: cli_failed_def split: sum.splits)
  show ?thesis
    unfolding queryGraph_cli_try_def Let_def
    by (auto intro!: stops_bind stops_ret c d)
qed

lemma caught:
  assumes "stops_at_failure fl body" and "c \<in> set (fst (try_catch body (\<lambda>e. ret (h e))))"
    and "fl c = Some e"
  shows "snd (try_catch body (\<lambda>e. ret (h e))) = Inr (h e)"
  using assms by (auto simp: try_catch_ret stops_at_failure_def)

lemma queryGraph_eq:
  "queryGraph ev s question mode =
     (if (if mode = ''auto'' then determineSearchMode question else mode) = ''global''
      then globalSearch ev s question else localSearch (qe_nlp ev) s question)"
proof -
  have "try_catch m h = m" if "\<exists>x. snd m = Inr x" for m :: "reply io" and h
    using that by (cases m) (auto simp: try_catch_def)
  moreover have "\<exists>x. snd (globalSearch ev s question) = Inr x"
    "\<exists>x. snd (localSearch (qe_nlp ev) s question) = Inr x"
    by (simp_all add: globalSearch_def localSearch_def try_catch_ret)
  ultimately show ?thesis by (simp add: queryGraph_def Let_def)
qed

text \<open>
  C8. No error leaves the query path: \<open>queryGraph\<close> in both modes, its first version and
  the \<open>queryGraph\<close> of the command-line variant always return a value. When a call to
  the store made during the query fails with a message, the value is the error result
  of the path: "Local search error: " or "Global search error: " followed by the
  message, "Error querying knowledge graph: " followed by the message in the first
  version, and the answer "Error occurred while searching the knowledge graph." with no
  concepts and no documents in the command-line variant.
\<close>

theorem query_failures_are_answers:
  "(\<exists>r. snd (queryGraph ev s question mode) = Inr r)
   \<and> (\<exists>r. snd (queryGraph_legacy n s question) = Inr r)
   \<and> (\<exists>r. snd (queryGraph_cli k question) = Inr r)
   \<and> (c \<in> set (fst (localSearch n s question)) \<longrightarrow> failed s c = Some e \<longrightarrow>
        snd (localSearch n s question) = Inr (Text (''Local search error: '' @ e)))
   \<and> (c \<in> set (fst (globalSearch ev s question)) \<longrightarrow> failed s c = Some e \<longrightarrow>
        snd (globalSearch ev s question) = Inr (Text (''Global search error: '' @ e)))
   \<and> (c \<in> set (fst (queryGraph ev s question mode)) \<longrightarrow> failed s c = Some e \<longrightarrow>
        snd (queryGraph ev s question mode) = Inr (Text (''Local search error: '' @ e))
        \<or> snd (queryGraph ev s question mode) = Inr (Text (''Global search error: '' @ e)))
   \<and> (c \<in> set (fst (queryGraph_legacy n s question)) \<longrightarrow> failed s c = Some e \<longrightarrow>
        snd (queryGraph_legacy n s question)
          = Inr (Text (''Error querying knowledge graph: '' @ e)))
   \<and> (c \<in> set (fst (queryGraph_cli k question)) \<longrightarrow> cli_failed k c = Some e \<longrightarrow>
        snd (queryGraph_cli k question) = Inr error_answer)
   \<and> answer error_answer = ''Error occurred while searching the knowledge graph.''"
proof -
  have l: "c \<in> set (fst (localSearch n s question)) \<longrightarrow> failed s c = Some e \<longrightarrow>
        snd (localSearch n s question) = Inr (Text (''Local search error: '' @ e))" for n
    unfolding localSearch_def
    using caught [OF stops_localSearch_try, where h = "\<lambda>e. Text (''Local search error: '' @ e)"]
    by blast
  have g: "c \<in> set (fst (globalSearch ev s question)) \<longrightarrow> failed s c = Some e \<longrightarrow>
        snd (globalSearch ev s question) = Inr (Text (''Global search error: '' @ e))"
    unfolding globalSearch_def
    using caught [OF stops_globalSearch_try, where h = "\<lambda>e. Text (''Global search error: '' @ e)"]
    by blast
  have q: "c \<in> set (fst (queryGraph ev s question mode)) \<longrightarrow> failed s c = Some e \<longrightarrow>
        snd (queryGraph ev s question mode) = Inr (Text (''Local search error: '' @ e))
        \<or> snd (queryGraph ev s question mode) = Inr (Text (''Global search error: '' @ e))"
    using l [of "qe_nlp ev"] g by (auto simp: queryGraph_eq)
  have y: "c \<in> set (fst (queryGraph_legacy n s question)) \<longrightarrow> failed s c = Some e \<longrightarrow>
        snd (queryGraph_legacy n s question)
          = Inr (Text (''Error querying knowledge graph: '' @ e))"
    unfolding queryGraph_legacy_def
    using caught [OF stops_queryGraph_legacy_try,
        where h = "\<lambda>e. Text (''Error querying knowledge graph: '' @ e)"]
    by blast
  have k: "c \<in> set (fst (queryGraph_cli k question)) \<longrightarrow> cli_failed k c = Some e \<longrightarrow>
        snd (queryGraph_cli k question) = Inr error_answer"
    unfolding queryGraph_cli_def
    using caught [OF stops_queryGraph_cli_try, where h = "\<lambda>e. error_answer"] by blast
  have t: "\<exists>r. snd (queryGraph ev s question mode) = Inr r"
    "\<exists>r. snd (queryGraph_legacy n s question) = Inr r"
    "\<exists>r. snd (queryGraph_cli k question) = Inr r"
    by (simp_all add: queryGraph_eq globalSearch_def localSearch_def queryGraph_legacy_def
        queryGraph_cli_def try_catch_ret)
  have a: "answer error_answer = ''Error occurred while searching the knowledge graph.''"
    by (simp add: error_answer_def)
  from l [of n] g q y k t a show ?thesis by blast
qed

text \<open>Sample sessions, for evaluation: a store that holds nothing, and a store that
  cannot be reached.\<close>

definition empty_session :: session where
  "empty_session = \<lparr>entityQuery = (\<lambda>terms. Inr []), conceptQuery = (\<lambda>terms. Inr []),
     docQuery = (\<lambda>names. Inr []), communitiesQuery = Inr []\<rparr>"

definition lost_session :: session where
  "lost_session = \<lparr>entityQuery = (\<lambda>terms. Inl ''connection lost''),
     conceptQuery = (\<lambda>terms. Inl ''connection lost''),
     docQuery = (\<lambda>names. Inl ''connection lost''),
     communitiesQuery = Inl ''connection lost''\<rparr>"

definition empty_cli_session :: cli_session where
  "empty_cli_session = \<lparr>cli_conceptQuery = (\<lambda>ws. Inr []), cli_docQuery = (\<lambda>names. Inr [])\<rparr>"

definition lost_cli_session :: cli_session where
  "lost_cli_session = \<lparr>cli_conceptQuery = (\<lambda>ws. Inl ''connection lost''),
     cli_docQuery = (\<lambda>names. Inl ''connection lost'')\<rparr>"

definition sample_query_env :: query_env where
  "sample_query_env = \<lparr>qe_nlp = sample_nlp, qe_api_key = False,
     qe_summarize = (\<lambda>question communities. Inl ''no service'')\<rparr>"

lemma lost_calls:
  "fst (localSearch sample_nlp lost_session ''graph databases'')
     = [EntityQuery [''graph'', ''database'']]"
  "failed lost_session (EntityQuery [''graph'', ''database'']) = Some ''connection lost''"
  "fst (queryGraph_cli lost_cli_session ''graph databases'')
     = [CliConceptQuery [''graph'', ''databases'']]"
  "cli_failed lost_cli_session (CliConceptQuery [''graph'', ''databases''])
     = Some ''connection lost''"
  by code_simp+

theorem query_failures_are_answers_witness:
  "snd (localSearch sample_nlp lost_session ''graph databases'')
     = Inr (Text ''Local search error: connection lost'')
   \<and> snd (queryGraph_cli lost_cli_session ''graph databases'') = Inr error_answer"
proof -
  note t = query_failures_are_answers [where n = sample_nlp and s = lost_session
      and question = "''graph databases''" and c = "EntityQuery [''graph'', ''database'']"
      and e = "''connection lost''"]
  note u = query_failures_are_answers [where k = lost_cli_session
      and question = "''graph databases''" and c = "CliConceptQuery [''graph'', ''databases'']"
      and e = "''connection lost''"]
  have "snd (localSearch sample_nlp lost_session ''graph databases'')
     = Inr (Text (''Local search error: '' @ ''connection lost''))"
    using t lost_calls(1,2) by simp
  moreover have "snd (queryGraph_cli lost_cli_session ''graph databases'') = Inr error_answer"
    using u lost_calls(3,4) by simp
  ultimately show ?thesis by simp
qed

text \<open>
  C6, as amended. In knowledge-graph.js, when the tokens of the question, without the
  stop words and the tokens of at most 2 characters, leave no key term, local search
  returns the text "Please provide a more specific question with meaningful terms."
  as its value, without any call to the store; so does \<open>queryGraph\<close> whenever the mode is
  not \<open>global\<close> (given, or chosen by the automatic selection), and so does the first
  version of \<open>queryGraph\<close>. With the mode \<open>global\<close> the question is not inspected and the
  communities are read; the command-line variant has no such test and runs its concept
  search with the words it has, even none.
\<close>

theorem no_key_terms_no_search:
  "(key_terms (qe_nlp ev) question = [] \<longrightarrow>
      localSearch (qe_nlp ev) s question = ([], Inr (Text need_specific))
      \<and> queryGraph_legacy (qe_nlp ev) s question = ([], Inr (Text need_specific))
      \<and> ((if mode = ''auto'' then determineSearchMode question else mode) \<noteq> ''global'' \<longrightarrow>
           queryGraph ev s question mode = ([], Inr (Text need_specific))))
   \<and> need_specific = ''Please provide a more specific question with meaningful terms.''"
proof -
  have l: "localSearch n s question = ([], Inr (Text need_specific))"
    if "key_terms n question = []" for n
    using that by (simp add: localSearch_def localSearch_try_def try_catch_def ret_def)
  have y: "queryGraph_legacy n s question = ([], Inr (Text need_specific))"
    if "key_terms n question = []" for n
    using that by (simp add: queryGraph_legacy_def queryGraph_legacy_try_def try_catch_def ret_def)
  have t: "need_specific = ''Please provide a more specific question with meaningful terms.''"
    by (simp add: need_specific_def)
  from l [of "qe_nlp ev"] y [of "qe_nlp ev"] t show ?thesis
    by (simp add: queryGraph_eq)
qed

lemma stop_word_question:
  "key_terms (qe_nlp sample_query_env) ''What are the?'' = []"
  "(if ''auto'' = ''auto'' then determineSearchMode ''What are the?'' else ''auto'') \<noteq> ''global''"
  by code_simp+

theorem no_key_terms_no_search_witness:
  "queryGraph sample_query_env lost_session ''What are the?'' ''auto''
     = ([], Inr (Text ''Please provide a more specific question with meaningful terms.''))
   \<and> localSearch sample_nlp lost_session ''What are the?''
     = ([], Inr (Text ''Please provide a more specific question with meaningful terms.''))"
proof -
  note t = no_key_terms_no_search [where ev = sample_query_env and s = lost_session
      and question = "''What are the?''" and mode = "''auto''"]
  have n: "qe_nlp sample_query_env = sample_nlp" by (simp add: sample_query_env_def)
  from t stop_word_question show ?thesis unfolding n by metis
qed

theorem no_key_terms_counterexample:
  "key_terms (qe_nlp sample_query_env) ''the'' = []
   \<and> queryGraph sample_query_env empty_session ''the'' ''global''
       = ([CommunitiesQuery], Inr (GlobalOverview []))
   \<and> queryWords ''is it'' = []
   \<and> fst (queryGraph_cli empty_cli_session ''is it'') = [CliConceptQuery []]
   \<and> map_sum id answer (snd (queryGraph_cli empty_cli_session ''is it''))
       = Inr (''I couldn'' @ [CHR 0x27]
          @ ''t find any relevant concepts in the knowledge graph for your question.'')"
  by code_simp

subsection \<open>The excerpt of the command-line variant\<close>

text \<open>The sentences that the loops visit, in their order: document after document, and
  within a document the pieces of its content between runs of full stops, exclamation
  and question marks that have more than 20 characters once trimmed.\<close>

definition candidates :: "cli_doc_row list \<Rightarrow> string list" where
  "candidates records = concat (map (\<lambda>r. sentences_of (cd_content r)) records)"

text \<open>The sentences that can become the excerpt: more than 30 characters once trimmed,
  and a positive score.\<close>

definition eligible :: "string list \<Rightarrow> concept list \<Rightarrow> cli_doc_row list \<Rightarrow> string list" where
  "eligible qw rc records =
     filter (\<lambda>s. length (trim s) > 30 \<and> sentence_score qw rc s > 0) (candidates records)"

lemma scan_documents:
  "foldl (scan_document qw rc) best records
     = foldl (consider_sentence qw rc) best (candidates records)"
  by (induction records arbitrary: best) (simp_all add: candidates_def scan_document_def)

lemma scan_sentences:
  fixes qw rc
  defines "ok \<equiv> \<lambda>s. length (trim s) > 30 \<and> sentence_score qw rc s > 0"
  shows "(filter ok xs = [] \<and> foldl (consider_sentence qw rc) (0, []) xs = (0, []))
    \<or> (\<exists>pre s post. filter ok xs = pre @ s # post
          \<and> foldl (consider_sentence qw rc) (0, []) xs = (sentence_score qw rc s, trim s)
          \<and> (\<forall>t \<in> set pre. sentence_score qw rc t < sentence_score qw rc s)
          \<and> (\<forall>t \<in> set post. sentence_score qw rc t \<le> sentence_score qw rc s))"
proof (induction xs rule: rev_induct)
  case Nil
  then show ?case by simp
next
  case (snoc x xs)
  let ?sc = "sentence_score qw rc"
  let ?st = "foldl (consider_sentence qw rc) (0, []) xs"
  have step: "foldl (consider_sentence qw rc) (0, []) (xs @ [x])
      = (if ?sc x > fst ?st \<and> length (trim x) > 30 then (?sc x, trim x) else ?st)"
    by (simp add: consider_sentence_def)
  from snoc.IH show ?case
  proof (elim disjE conjE exE)
    assume e: "filter ok xs = []" and st: "?st = (0, [])"
    show ?thesis
    proof (cases "ok x")
      case True
      then have "filter ok (xs @ [x]) = [] @ x # []" using e by simp
      moreover have "foldl (consider_sentence qw rc) (0, []) (xs @ [x]) = (?sc x, trim x)"
        using True st step by (simp add: ok_def)
      ultimately show ?thesis by fastforce
    next
      case False
      then have "filter ok (xs @ [x]) = []" using e by simp
      moreover have "foldl (consider_sentence qw rc) (0, []) (xs @ [x]) = (0, [])"
        using False st step by (auto simp: ok_def)
      ultimately show ?thesis by simp
    qed
  next
    fix pre s post
    assume e: "filter ok xs = pre @ s # post" and st: "?st = (?sc s, trim s)"
      and lt: "\<forall>t \<in> set pre. ?sc t < ?sc s" and le: "\<forall>t \<in> set post. ?sc t \<le> ?sc s"
    have "s \<in> set (filter ok xs)" using e by simp
    then have pos: "?sc s > 0" by (simp add: ok_def)
    show ?thesis
    proof (cases "ok x")
      case False
      then have f: "filter ok (xs @ [x]) = pre @ s # post" using e by simp
      have "\<not> (?sc x > ?sc s \<and> length (trim x) > 30)" using False pos by (auto simp: ok_def)
      then have "foldl (consider_sentence qw rc) (0, []) (xs @ [x]) = (?sc s, trim s)"
        using st step by simp
      with f lt le show ?thesis by blast
    next
      case True
      then have long: "length (trim x) > 30" by (simp add: ok_def)
      show ?thesis
      proof (cases "?sc x > ?sc s")
        case gt: True
        have f: "filter ok (xs @ [x]) = (pre @ s # post) @ x # []" using True e by simp
        have r: "foldl (consider_sentence qw rc) (0, []) (xs @ [x]) = (?sc x, trim x)"
          using st step gt long by simp
        have "\<forall>t \<in> set (pre @ s # post). ?sc t < ?sc x" using lt le gt by fastforce
        with f r show ?thesis by (metis empty_iff list.set(1))
      next
        case ngt: False
        have f: "filter ok (xs @ [x]) = pre @ s # (post @ [x])" using True e by simp
        have r: "foldl (consider_sentence qw rc) (0, []) (xs @ [x]) = (?sc s, trim s)"
          using st step ngt by simp
        have "\<forall>t \<in> set (post @ [x]). ?sc t \<le> ?sc s" using le ngt by auto
        with f r lt show ?thesis by blast
      qed
    qed
  qed
qed

lemma best_excerpt_none:
  "eligible qw rc records = [] \<Longrightarrow> best_excerpt qw rc records = []"
  using scan_sentences [of qw rc "candidates records"]
  by (auto simp: best_excerpt_def scan_documents eligible_def)

lemma best_excerpt_first_best:
  "eligible qw rc records \<noteq> [] \<Longrightarrow>
   \<exists>pre s post. eligible qw rc records = pre @ s # post
      \<and> best_excerpt qw rc records = trim s
      \<and> (\<forall>t \<in> set pre. sentence_score qw rc t < sentence_score qw rc s)
      \<and> (\<forall>t \<in> set post. sentence_score qw rc t \<le> sentence_score qw rc s)"
  using scan_sentences [of qw rc "candidates records"]
  unfolding best_excerpt_def scan_documents eligible_def
  by (elim disjE conjE exE) (simp, fastforce)

lemma queryGraph_cli_answer:
  assumes "cli_conceptQuery k (queryWords question) = Inr rc" and "rc \<noteq> []"
    and "cli_docQuery k (map name rc) = Inr records" and "records \<noteq> []"
    and "best_excerpt (queryWords question) rc records \<noteq> []"
  shows "map_sum id answer (snd (queryGraph_cli k question))
     = Inr (''Based on your documents: '' @ best_excerpt (queryWords question) rc records)"
  using assms
  by (simp add: queryGraph_cli_def queryGraph_cli_try_def try_catch_def bind_def run_def
      ret_def Let_def)

text \<open>A store for evaluation: it knows the concepts "artificial" and "intelligence" and
  one document.\<close>

definition ai_concepts :: "concept list" where
  "ai_concepts = [\<lparr>name = ''artificial'', frequency = Count 2\<rparr>,
     \<lparr>name = ''intelligence'', frequency = Count 2\<rparr>]"

definition one_document :: "string \<Rightarrow> cli_doc_row list" where
  "one_document content =
     [\<lparr>cd_name = ''notes.txt'', cd_content = content, cd_type = ''file'',
       cd_conceptCount = 2, cd_matched = [''artificial'', ''intelligence'']\<rparr>]"

definition ai_session :: "string \<Rightarrow> cli_session" where
  "ai_session content =
     \<lparr>cli_conceptQuery = (\<lambda>ws. Inr ai_concepts),
      cli_docQuery = (\<lambda>names. Inr (one_document content))\<rparr>"

text \<open>
  C7, as amended. In the command-line variant, the sentences of the documents found are
  the pieces of their content between runs of full stops, exclamation and question
  marks, so a sentence comes without its final mark. The score of a sentence is 2 for
  every word of the lower-cased question of more than 2 characters that its lower-cased
  text contains, plus 1 for every matched concept name it contains, times 1.5 when this
  is more than 2. The excerpt is the first sentence, document after document, of the
  highest score among the sentences of MORE than 30 characters once trimmed (31 or more;
  the first test, more than 20 characters, then excludes nothing more) that have a
  positive score, trimmed; when there is no such sentence there is no excerpt. When
  there is one, the answer is "Based on your documents: " followed by it.
\<close>

theorem excerpt_is_first_best:
  "(eligible qw rc records = [] \<longrightarrow> best_excerpt qw rc records = [])
   \<and> (eligible qw rc records \<noteq> [] \<longrightarrow>
        (\<exists>pre s post. eligible qw rc records = pre @ s # post
           \<and> best_excerpt qw rc records = trim s
           \<and> (\<forall>t \<in> set pre. sentence_score qw rc t < sentence_score qw rc s)
           \<and> (\<forall>t \<in> set post. sentence_score qw rc t \<le> sentence_score qw rc s)))
   \<and> (cli_conceptQuery k (queryWords question) = Inr rc \<longrightarrow> rc \<noteq> [] \<longrightarrow>
        cli_docQuery k (map name rc) = Inr records \<longrightarrow> records \<noteq> [] \<longrightarrow>
        best_excerpt (queryWords question) rc records \<noteq> [] \<longrightarrow>
        map_sum id answer (snd (queryGraph_cli k question))
          = Inr (''Based on your documents: ''
                 @ best_excerpt (queryWords question) rc records))"
  using best_excerpt_none [of qw rc records] best_excerpt_first_best [of qw rc records]
    queryGraph_cli_answer [of k question rc records]
  by blast

lemma ai_example:
  "eligible (queryWords ''What is artificial intelligence?'') ai_concepts
     (one_document ''Artificial intelligence enables automated reasoning.'')
     = [''Artificial intelligence enables automated reasoning'']"
  "cli_conceptQuery (ai_session ''Artificial intelligence enables automated reasoning.'')
     (queryWords ''What is artificial intelligence?'') = Inr ai_concepts"
  "ai_concepts \<noteq> []"
  "cli_docQuery (ai_session ''Artificial intelligence enables automated reasoning.'')
     (map name ai_concepts)
     = Inr (one_document ''Artificial intelligence enables automated reasoning.'')"
  "one_document ''Artificial intelligence enables automated reasoning.'' \<noteq> []"
  "trim ''Artificial intelligence enables automated reasoning''
     = ''Artificial intelligence enables automated reasoning''"
  by code_simp+

theorem excerpt_is_first_best_witness:
  "best_excerpt (queryWords ''What is artificial intelligence?'') ai_concepts
     (one_document ''Artificial intelligence enables automated reasoning.'')
     = ''Artificial intelligence enables automated reasoning''
   \<and> map_sum id answer
        (snd (queryGraph_cli (ai_session ''Artificial intelligence enables automated reasoning.'')
           ''What is artificial intelligence?''))
     = Inr ''Based on your documents: Artificial intelligence enables automated reasoning''"
proof -
  let ?q = "''What is artificial intelligence?''"
  let ?c = "''Artificial intelligence enables automated reasoning.''"
  note t = excerpt_is_first_best [where qw = "queryWords ?q" and rc = ai_concepts
      and records = "one_document ?c" and k = "ai_session ?c" and question = ?q]
  from t ai_example(1) obtain pre s post where
    e: "[''Artificial intelligence enables automated reasoning''] = pre @ s # post"
    and b: "best_excerpt (queryWords ?q) ai_concepts (one_document ?c) = trim s"
    by auto
  from e have "s = ''Artificial intelligence enables automated reasoning''"
    by (cases pre) auto
  with b ai_example(6) have x: "best_excerpt (queryWords ?q) ai_concepts (one_document ?c)
      = ''Artificial intelligence enables automated reasoning''"
    by simp
  then have "best_excerpt (queryWords ?q) ai_concepts (one_document ?c) \<noteq> []" by simp
  with t ai_example(2-5) have "map_sum id answer (snd (queryGraph_cli (ai_session ?c) ?q))
      = Inr (''Based on your documents: ''
             @ best_excerpt (queryWords ?q) ai_concepts (one_document ?c))"
    by blast
  with x show ?thesis by simp
qed

theorem excerpt_counterexample:
  "length (trim ''Graph databases store the data'') = 30
   \<and> sentence_score (queryWords ''graph databases'') ai_concepts
        ''Graph databases store the data'' = 6
   \<and> sentences_of ''Graph databases store the data.'' = [''Graph databases store the data'']
   \<and> best_excerpt (queryWords ''graph databases'') ai_concepts
        (one_document ''Graph databases store the data.'') = []
   \<and> map_sum id answer
        (snd (queryGraph_cli (ai_session ''Graph databases store the data.'') ''graph databases''))
       = Inr (''Found relevant concepts (artificial, intelligence) but couldn'' @ [CHR 0x27]
              @ ''t extract a specific answer. Try rephrasing your question.'')
   \<and> queryWords ''What is artificial intelligence?''
       = [''what'', ''artificial'', ''intelligence?'']
   \<and> sentence_score (queryWords ''What is artificial intelligence?'') ai_concepts
        ''Artificial intelligence enables automated reasoning'' = 6
   \<and> best_excerpt (queryWords ''What is artificial intelligence?'') ai_concepts
        (one_document ''Artificial intelligence enables automated reasoning.'')
       = ''Artificial intelligence enables automated reasoning''"
  by code_simp

section \<open>Community detection (knowledge-graph.js, detectCommunities)\<close>

text \<open>
  \<open>gds.graph.project('entity-graph', 'Entity', '*')\<close>: the projected graph has the nodes
  labelled Entity and the relationships of every type among them. Two entities are
  linked when a relationship joins them, in either direction.
\<close>

definition linked :: "graph \<Rightarrow> string \<Rightarrow> string \<Rightarrow> bool" where
  "linked g a b =
     list_ex (\<lambda>r. (er_from r = a \<and> er_to r = b) \<or> (er_from r = b \<and> er_to r = a))
       (entity_rels g)"

text \<open>
  Modelled from the spec: the connected-components procedure of the graph-algorithms
  collaborator (\<open>gds.wcc.write\<close>, called by \<open>detectCommunities\<close>; a library of the store,
  not among the sources). The spec: "connected-components over the adjacency (undirected
  graph, components = maximal sets transitively linked by any edge)". Here the nodes
  reached from the visited ones are added until none is new; the label of a component
  is the position of its first node.
\<close>

function reach :: "'a list \<Rightarrow> ('a \<Rightarrow> 'a \<Rightarrow> bool) \<Rightarrow> 'a list \<Rightarrow> 'a list" where
  "reach ns adj vis =
     (let new = filter (\<lambda>y. y \<notin> set vis \<and> list_ex (\<lambda>x. adj x y) vis) (remdups ns)
      in if new = [] then vis else reach ns adj (vis @ new))"
  by pat_completeness auto
termination
proof (relation "measure (\<lambda>(ns, adj, vis). card (set ns - set vis))")
  show "wf (measure (\<lambda>(ns, adj, vis). card (set ns - set vis)))" by simp
next
  fix ns :: "'a list" and adj vis new
  assume n: "new = filter (\<lambda>y. y \<notin> set vis \<and> list_ex (\<lambda>x. adj x y) vis) (remdups ns)"
    and ne: "new \<noteq> []"
  from ne obtain y where y: "y \<in> set new" by (cases new) auto
  with n have "y \<in> set ns - set vis" by auto
  moreover have "y \<notin> set ns - set (vis @ new)" using y by simp
  ultimately have "set ns - set (vis @ new) \<subset> set ns - set vis" by auto
  then have "card (set ns - set (vis @ new)) < card (set ns - set vis)"
    by (intro psubset_card_mono) simp_all
  then show "((ns, adj, vis @ new), (ns, adj, vis)) \<in> measure (\<lambda>(ns, adj, vis). card (set ns - set vis))"
    by simp
qed

declare reach.simps [simp del]

definition component_id :: "'a list \<Rightarrow> ('a \<Rightarrow> 'a \<Rightarrow> bool) \<Rightarrow> 'a \<Rightarrow> nat" where
  "component_id ns adj x = length (takeWhile (\<lambda>y. y \<notin> set (reach ns adj [x])) ns)"

definition wcc :: "'a list \<Rightarrow> ('a \<Rightarrow> 'a \<Rightarrow> bool) \<Rightarrow> nat list" where
  "wcc ns adj = map (component_id ns adj) ns"

text \<open>The fallback: \<open>CASE WHEN e.type = 'PERSON' THEN 'people' ... ELSE 'concepts' END\<close>\<close>

definition bucket_of :: "string \<Rightarrow> string" where
  "bucket_of t =
     (if t = ''PERSON'' then ''people''
      else if t = ''ORGANIZATION'' then ''organizations''
      else if t = ''TECHNOLOGY'' then ''technologies''
      else if t = ''LOCATION'' then ''locations''
      else ''concepts'')"

text \<open>
  \<open>detectCommunities\<close>: when its first statement succeeds (\<open>gds\<close>: the library is
  installed and the store accepts the statement as it is written, with a last call
  \<open>gds.graph.drop\<close> that has no \<open>YIELD\<close>), every Entity node gets its component as
  \<open>community\<close>, and the number of components is returned; when the statement fails,
  every Entity node gets the bucket of its type, and the number of different
  communities of the Entity nodes is returned. No statement touches a Concept node.
\<close>

definition detectCommunities :: "bool \<Rightarrow> graph \<Rightarrow> graph \<times> nat" where
  "detectCommunities gds g =
     (if gds then
        (let ns = map e_name (entities g) in
         (g\<lparr>entities :=
              map (\<lambda>e. e\<lparr>e_community := Some (Component (component_id ns (linked g) (e_name e)))\<rparr>)
                (entities g)\<rparr>,
          length (remdups (wcc ns (linked g)))))
      else
        (let g' = g\<lparr>entities :=
                      map (\<lambda>e. e\<lparr>e_community := Some (Bucket (bucket_of (e_type e)))\<rparr>)
                        (entities g)\<rparr>
         in (g', length (remdups (map e_community (entities g'))))))"

text \<open>The community of the Entity node of a name, and the size that the reports give for
  a community: \<open>MATCH (e:Entity) WHERE e.community IS NOT NULL WITH e.community as
  community, COLLECT(e) as entities RETURN community, SIZE(entities) as size\<close>.\<close>

definition community_of :: "graph \<Rightarrow> string \<Rightarrow> community option" where
  "community_of g nm =
     (case find (\<lambda>e. e_name e = nm) (entities g) of None \<Rightarrow> None | Some e \<Rightarrow> e_community e)"

definition community_size :: "graph \<Rightarrow> community \<Rightarrow> nat" where
  "community_size g c = length (filter (\<lambda>e. e_community e = Some c) (entities g))"

definition communities_listed :: "graph \<Rightarrow> (community \<times> nat) list" where
  "communities_listed g =
     map (\<lambda>c. (c, community_size g c))
       (remdups (concat (map (\<lambda>e. case e_community e of None \<Rightarrow> [] | Some c \<Rightarrow> [c])
          (entities g))))"

text \<open>The entities transitively linked: the relation whose classes are the
  components.\<close>

definition connected :: "graph \<Rightarrow> (string \<times> string) set" where
  "connected g = {(a, b). b \<in> set (map e_name (entities g)) \<and> linked g a b}\<^sup>*"

subsection \<open>The components\<close>

lemma reach_closure:
  "set (reach ns adj vis) = {(x, y). y \<in> set ns \<and> adj x y}\<^sup>* `` set vis"
proof (induction ns adj vis rule: reach.induct)
  case (1 ns adj vis)
  let ?R = "{(x, y). y \<in> set ns \<and> adj x y}"
  define new where "new = filter (\<lambda>y. y \<notin> set vis \<and> list_ex (\<lambda>x. adj x y) vis) (remdups ns)"
  have new: "set new = ?R `` set vis - set vis"
    by (auto simp: new_def list_ex_iff)
  show ?case
  proof (cases "new = []")
    case True
    then have "?R `` set vis \<subseteq> set vis" using new by auto
    then have "?R\<^sup>* `` set vis = set vis" by (rule Image_closed_trancl)
    moreover have "reach ns adj vis = vis"
      using True by (subst reach.simps) (simp add: new_def)
    ultimately show ?thesis by simp
  next
    case False
    have r: "reach ns adj vis = reach ns adj (vis @ new)"
      using False by (subst reach.simps) (simp add: new_def Let_def)
    have "set (reach ns adj (vis @ new)) = ?R\<^sup>* `` set (vis @ new)"
      using False by (intro 1) (simp_all add: new_def)
    also have "\<dots> = ?R\<^sup>* `` set vis"
    proof
      show "?R\<^sup>* `` set vis \<subseteq> ?R\<^sup>* `` set (vis @ new)" by auto
      have "set new \<subseteq> ?R `` set vis" using new by auto
      then have "set (vis @ new) \<subseteq> ?R\<^sup>* `` set vis" by auto
      then have "?R\<^sup>* `` set (vis @ new) \<subseteq> ?R\<^sup>* `` (?R\<^sup>* `` set vis)" by (rule Image_mono [OF subset_refl])
      also have "\<dots> = ?R\<^sup>* `` set vis" by (auto intro: rtrancl_trans)
      finally show "?R\<^sup>* `` set (vis @ new) \<subseteq> ?R\<^sup>* `` set vis" .
    qed
    finally show ?thesis using r by simp
  qed
qed

lemma takeWhile_stops:
  "x \<in> set xs \<Longrightarrow> \<not> P x \<Longrightarrow> length (takeWhile P xs) < length xs
     \<and> \<not> P (xs ! length (takeWhile P xs))"
  by (induction xs) auto

lemma takeWhile_first:
  "i < length xs \<Longrightarrow> \<not> P (xs ! i) \<Longrightarrow> \<forall>j < i. P (xs ! j) \<Longrightarrow> length (takeWhile P xs) = i"
proof (induction xs arbitrary: i)
  case Nil
  then show ?case by simp
next
  case (Cons a xs)
  show ?case
  proof (cases i)
    case 0
    then show ?thesis using Cons.prems by simp
  next
    case (Suc k)
    have "P a" using Cons.prems(3) Suc by (metis nth_Cons_0 zero_less_Suc)
    moreover have "length (takeWhile P xs) = k"
    proof (rule Cons.IH)
      show "k < length xs" using Cons.prems(1) Suc by simp
      show "\<not> P (xs ! k)" using Cons.prems(2) Suc by simp
      show "\<forall>j < k. P (xs ! j)" using Cons.prems(3) Suc by (metis Suc_less_eq nth_Cons_Suc)
    qed
    ultimately show ?thesis using Suc by simp
  qed
qed

text \<open>With a symmetric adjacency, two nodes have the same component number exactly when
  one is reached from the other.\<close>

lemma component_id_eq_iff:
  assumes sym: "\<And>x y. adj x y \<Longrightarrow> adj y x" and a: "a \<in> set ns" and b: "b \<in> set ns"
  shows "component_id ns adj a = component_id ns adj b
     \<longleftrightarrow> (a, b) \<in> {(x, y). y \<in> set ns \<and> adj x y}\<^sup>*"
proof -
  let ?R = "{(x, y). y \<in> set ns \<and> adj x y}"
  have into: "y \<in> set ns" if "(x, y) \<in> ?R\<^sup>*" "x \<in> set ns" for x y
    using that by (induction rule: rtrancl_induct) auto
  have bk: "(y, x) \<in> ?R\<^sup>*" if "(x, y) \<in> ?R\<^sup>*" "x \<in> set ns" for x y
    using that
  proof (induction rule: rtrancl_induct)
    case base
    then show ?case by simp
  next
    case (step y z)
    have "y \<in> set ns" using into step.hyps(1) step.prems by blast
    then have "(z, y) \<in> ?R" using step.hyps(2) sym by auto
    then show ?case using step.IH step.prems by (meson converse_rtrancl_into_rtrancl)
  qed
  have comp: "set (reach ns adj [x]) = ?R\<^sup>* `` {x}" for x
    by (simp add: reach_closure)
  show ?thesis
  proof
    assume eq: "component_id ns adj a = component_id ns adj b"
    let ?i = "component_id ns adj a"
    have "a \<in> set (reach ns adj [a])" "b \<in> set (reach ns adj [b])" by (simp_all add: comp)
    then have "?i < length ns \<and> ns ! ?i \<in> set (reach ns adj [a])"
      "?i < length ns \<and> ns ! ?i \<in> set (reach ns adj [b])"
      using takeWhile_stops [of a ns "\<lambda>y. y \<notin> set (reach ns adj [a])"]
        takeWhile_stops [of b ns "\<lambda>y. y \<notin> set (reach ns adj [b])"] a b eq
      by (simp_all add: component_id_def)
    then have "(a, ns ! ?i) \<in> ?R\<^sup>*" "(b, ns ! ?i) \<in> ?R\<^sup>*" by (simp_all add: comp)
    then show "(a, b) \<in> ?R\<^sup>*" using bk [of b "ns ! ?i"] b by (meson rtrancl_trans)
  next
    assume ab: "(a, b) \<in> ?R\<^sup>*"
    then have ba: "(b, a) \<in> ?R\<^sup>*" using bk a by blast
    have "?R\<^sup>* `` {a} = ?R\<^sup>* `` {b}"
      using ab ba by (auto intro: rtrancl_trans)
    then show "component_id ns adj a = component_id ns adj b"
      by (simp add: component_id_def comp)
  qed
qed

subsection \<open>What a run leaves\<close>

lemma detect_names:
  "map e_name (entities (fst (detectCommunities gds g))) = map e_name (entities g)"
  by (simp add: detectCommunities_def Let_def comp_def)

lemma detect_others:
  "documents (fst (detectCommunities gds g)) = documents g"
  "concepts (fst (detectCommunities gds g)) = concepts g"
  "contains (fst (detectCommunities gds g)) = contains g"
  "related (fst (detectCommunities gds g)) = related g"
  "entity_rels (fst (detectCommunities gds g)) = entity_rels g"
  by (simp_all add: detectCommunities_def Let_def)

lemma detect_labelled:
  "e \<in> set (entities (fst (detectCommunities gds g))) \<Longrightarrow> e_community e \<noteq> None"
  by (cases gds) (auto simp: detectCommunities_def Let_def)

lemma linked_detect: "linked (fst (detectCommunities gds g)) = linked g"
  by (simp add: linked_def fun_eq_iff detect_others)

lemma detect_idempotent:
  "detectCommunities gds (fst (detectCommunities gds g)) = detectCommunities gds g"
proof (cases gds)
  case True
  let ?g = "fst (detectCommunities True g)"
  have n: "map e_name (entities ?g) = map e_name (entities g)" by (rule detect_names)
  have l: "linked ?g = linked g" by (rule linked_detect)
  have e: "entities ?g = map (\<lambda>e. e\<lparr>e_community :=
      Some (Component (component_id (map e_name (entities g)) (linked g) (e_name e)))\<rparr>) (entities g)"
    by (simp add: detectCommunities_def Let_def)
  have "detectCommunities True ?g
    = (?g\<lparr>entities := map (\<lambda>e. e\<lparr>e_community :=
          Some (Component (component_id (map e_name (entities g)) (linked g) (e_name e)))\<rparr>)
            (entities ?g)\<rparr>,
       length (remdups (wcc (map e_name (entities g)) (linked g))))"
    unfolding detectCommunities_def [of True ?g] Let_def n l by simp
  also have "map (\<lambda>e. e\<lparr>e_community :=
          Some (Component (component_id (map e_name (entities g)) (linked g) (e_name e)))\<rparr>)
            (entities ?g) = entities ?g"
    unfolding e by (simp add: comp_def)
  finally show ?thesis using True by (simp add: detectCommunities_def Let_def)
next
  case False
  then show ?thesis by (simp add: detectCommunities_def Let_def comp_def)
qed

lemma find_map_name:
  "(\<And>e. e_name (f e) = e_name e) \<Longrightarrow>
   find (\<lambda>e. e_name e = nm) (map f es) = map_option f (find (\<lambda>e. e_name e = nm) es)"
  by (induction es) auto

lemma find_name_Some:
  "nm \<in> set (map e_name es) \<Longrightarrow> \<exists>e. find (\<lambda>e. e_name e = nm) es = Some e \<and> e_name e = nm \<and> e \<in> set es"
  by (induction es) auto

lemma community_of_primary:
  assumes "a \<in> set (map e_name (entities g))"
  shows "community_of (fst (detectCommunities True g)) a
     = Some (Component (component_id (map e_name (entities g)) (linked g) a))"
proof -
  from find_name_Some [OF assms] obtain e where
    "find (\<lambda>e. e_name e = a) (entities g) = Some e" "e_name e = a" by blast
  then show ?thesis
    by (simp add: community_of_def detectCommunities_def Let_def find_map_name)
qed

lemma community_of_fallback:
  assumes "e \<in> set (entities g)" and "distinct (map e_name (entities g))"
  shows "community_of (fst (detectCommunities False g)) (e_name e)
     = Some (Bucket (bucket_of (e_type e)))"
proof -
  have "find (\<lambda>x. e_name x = e_name e) es = Some e"
    if "e \<in> set es" "distinct (map e_name es)" for es
    using that by (induction es) (auto simp: image_iff)
  then show ?thesis using assms
    by (simp add: community_of_def detectCommunities_def Let_def find_map_name)
qed

lemma linked_sym: "linked g a b \<Longrightarrow> linked g b a"
  by (auto simp: linked_def list_ex_iff)

lemma same_community_iff:
  assumes "a \<in> set (map e_name (entities g))" and "b \<in> set (map e_name (entities g))"
  shows "community_of (fst (detectCommunities True g)) a
       = community_of (fst (detectCommunities True g)) b
     \<longleftrightarrow> (a, b) \<in> connected g"
  using component_id_eq_iff [of "linked g" a "map e_name (entities g)" b] assms linked_sym
  unfolding connected_def by (simp add: community_of_primary)

lemma connected_in_names:
  "(a, b) \<in> connected g \<Longrightarrow> a \<in> set (map e_name (entities g))
     \<Longrightarrow> b \<in> set (map e_name (entities g))"
  unfolding connected_def by (induction rule: rtrancl_induct) auto

lemma community_size_primary:
  assumes a: "a \<in> set (map e_name (entities g))" and d: "distinct (map e_name (entities g))"
  shows "community_size (fst (detectCommunities True g))
           (Component (component_id (map e_name (entities g)) (linked g) a))
     = card (connected g `` {a})"
proof -
  let ?ns = "map e_name (entities g)"
  let ?cid = "component_id ?ns (linked g)"
  have "community_size (fst (detectCommunities True g)) (Component (?cid a))
      = length (filter (\<lambda>e. ?cid (e_name e) = ?cid a) (entities g))"
    by (simp add: community_size_def detectCommunities_def Let_def filter_map comp_def)
  also have "\<dots> = length (filter (\<lambda>n. ?cid n = ?cid a) ?ns)"
    by (simp add: filter_map comp_def)
  also have "\<dots> = card (set (filter (\<lambda>n. ?cid n = ?cid a) ?ns))"
    using d distinct_card [of "filter (\<lambda>n. ?cid n = ?cid a) ?ns"] by (simp only: distinct_filter)
  also have "set (filter (\<lambda>n. ?cid n = ?cid a) ?ns) = connected g `` {a}"
  proof -
    have "?cid n = ?cid a \<longleftrightarrow> (a, n) \<in> connected g" if "n \<in> set ?ns" for n
      using component_id_eq_iff [of "linked g" a ?ns n] a that linked_sym
      unfolding connected_def by auto
    then show ?thesis using connected_in_names [of a _ g] a by auto
  qed
  finally show ?thesis .
qed

text \<open>Graphs for evaluation. Four entities with the relationships A-B and C-B, as the
  enriched ingestion of a file stores them; and the graph that the ingestion of two
  pages leaves, the first with the concepts graph and tree, the second with tree and
  leaf.\<close>

definition abcd_graph :: graph where
  "abcd_graph =
     fold merge_entity_rel
       [\<lparr>rel_source = ''A'', rel_target = ''B'', rel_type = Some ''USES''\<rparr>,
        \<lparr>rel_source = ''C'', rel_target = ''B'', rel_type = None\<rparr>]
       (fold (\<lambda>n. merge_entity n ''CONCEPT'' [] (Count 1)) [''A'', ''B'', ''C'', ''D''] empty_graph)"

definition page :: "string \<Rightarrow> string \<Rightarrow> url_source" where
  "page body stamp = \<lparr>u_url = ''http://a.example'', u_body = Some body,
     u_base64 = ''aHR0cDovL2EuZXhhbXBsZQ=='', u_stamp = stamp\<rparr>"

definition two_pages_graph :: graph where
  "two_pages_graph =
     snd (ingestUrl sample_env (page ''tree leaf tree leaf'' ''2'') False
       (snd (ingestUrl sample_env (page ''graph tree graph tree'' ''1'') False empty_graph)))"


lemma abcd_values:
  "''A'' \<in> set (map e_name (entities abcd_graph))"
  "''D'' \<in> set (map e_name (entities abcd_graph))"
  "distinct (map e_name (entities abcd_graph))"
  "community_of (fst (detectCommunities True abcd_graph)) ''A'' = Some (Component 0)"
  "community_of (fst (detectCommunities True abcd_graph)) ''D'' = Some (Component 3)"
  "community_size (fst (detectCommunities True abcd_graph)) (Component 0) = 3"
  "community_size (fst (detectCommunities True abcd_graph)) (Component 3) = 1"
  "communities_listed (fst (detectCommunities True abcd_graph))
     = [(Component 0, 3), (Component 3, 1)]"
  "snd (detectCommunities True abcd_graph) = 2"
  "map (\<lambda>r. (er_from r, er_to r)) (entity_rels abcd_graph) = [(''A'', ''B''), (''C'', ''B'')]"
  by code_simp+



end

